theory Spec2Isabelle
  imports Main "HOL-Library.Word"
begin

unbundle bit_operations_syntax

section \<open>MQTT dissector (epan/dissectors/packet-mqtt.c)\<close>

subsection \<open>Data\<close>

type_synonym u8 = "8 word"

text \<open>A tvbuff is the byte span handed to the dissector; reported and captured length
  coincide with the length of the list.\<close>

type_synonym tvbuff = "u8 list"

text \<open>The outcomes other than a decoded value, named as in the error taxonomy of the
  specification. The C code has no error values of its own: every failure is an exception
  thrown by a buffer accessor.\<close>

datatype error = MalformedLength | NeedMoreBytes | TruncatedFrame | UnderrunInLoop

text \<open>\<^verbatim>\<open>typedef struct { guint8 runtime_proto_version; } mqtt_conv;\<close>\<close>

record mqtt_conv =
  runtime_proto_version :: u8

definition MQTT_PROTO_V31 :: u8 where "MQTT_PROTO_V31 = 3"
definition MQTT_PROTO_V311 :: u8 where "MQTT_PROTO_V311 = 4"

definition MQTT_HDR_SIZE_BEFORE_LEN :: nat where "MQTT_HDR_SIZE_BEFORE_LEN = 1"

definition MQTT_RESERVED :: u8 where "MQTT_RESERVED = 0"
definition MQTT_CONNECT :: u8 where "MQTT_CONNECT = 1"
definition MQTT_CONNACK :: u8 where "MQTT_CONNACK = 2"
definition MQTT_PUBLISH :: u8 where "MQTT_PUBLISH = 3"
definition MQTT_PUBACK :: u8 where "MQTT_PUBACK = 4"
definition MQTT_PUBREC :: u8 where "MQTT_PUBREC = 5"
definition MQTT_PUBREL :: u8 where "MQTT_PUBREL = 6"
definition MQTT_PUBCOMP :: u8 where "MQTT_PUBCOMP = 7"
definition MQTT_SUBSCRIBE :: u8 where "MQTT_SUBSCRIBE = 8"
definition MQTT_SUBACK :: u8 where "MQTT_SUBACK = 9"
definition MQTT_UNSUBSCRIBE :: u8 where "MQTT_UNSUBSCRIBE = 10"
definition MQTT_UNSUBACK :: u8 where "MQTT_UNSUBACK = 11"
definition MQTT_PINGREQ :: u8 where "MQTT_PINGREQ = 12"
definition MQTT_PINGRESP :: u8 where "MQTT_PINGRESP = 13"
definition MQTT_DISCONNECT :: u8 where "MQTT_DISCONNECT = 14"
definition MQTT_RESERVED_15 :: u8 where "MQTT_RESERVED_15 = 15"

definition MQTT_MASK_MSG_TYPE :: u8 where "MQTT_MASK_MSG_TYPE = 0xF0"
definition MQTT_MASK_HDR_RESERVED :: u8 where "MQTT_MASK_HDR_RESERVED = 0x0F"
definition MQTT_MASK_HDR_DUP_RESERVED :: u8 where "MQTT_MASK_HDR_DUP_RESERVED = 0x07"
definition MQTT_MASK_QOS :: u8 where "MQTT_MASK_QOS = 0x06"
definition MQTT_MASK_DUP_FLAG :: u8 where "MQTT_MASK_DUP_FLAG = 0x08"
definition MQTT_MASK_RETAIN :: u8 where "MQTT_MASK_RETAIN = 0x01"

definition MQTT_CONMASK_USER :: u8 where "MQTT_CONMASK_USER = 0x80"
definition MQTT_CONMASK_PASSWD :: u8 where "MQTT_CONMASK_PASSWD = 0x40"
definition MQTT_CONMASK_RETAIN :: u8 where "MQTT_CONMASK_RETAIN = 0x20"
definition MQTT_CONMASK_QOS :: u8 where "MQTT_CONMASK_QOS = 0x18"
definition MQTT_CONMASK_WILLFLAG :: u8 where "MQTT_CONMASK_WILLFLAG = 0x04"
definition MQTT_CONMASK_CLEANSESS :: u8 where "MQTT_CONMASK_CLEANSESS = 0x02"
definition MQTT_CONMASK_RESERVED :: u8 where "MQTT_CONMASK_RESERVED = 0x01"

definition MQTT_CONACKMASK_RESERVED :: u8 where "MQTT_CONACKMASK_RESERVED = 0xFE"
definition MQTT_CONACKMASK_SP :: u8 where "MQTT_CONACKMASK_SP = 0x01"

text \<open>The registered header fields (the \<^verbatim>\<open>hf_mqtt_*\<close> handles).\<close>

datatype hf =
    hf_mqtt_hdrflags | hf_mqtt_msg_len | hf_mqtt_msg_type | hf_mqtt_reserved
  | hf_mqtt_dup_reserved | hf_mqtt_dup_flag | hf_mqtt_qos_level | hf_mqtt_retain
  | hf_mqtt_conack_flags | hf_mqtt_conackflag_reserved | hf_mqtt_conackflag_sp
  | hf_mqtt_conack_code | hf_mqtt_msgid | hf_mqtt_sub_qos | hf_mqtt_suback_qos
  | hf_mqtt_topic_len | hf_mqtt_topic | hf_mqtt_will_topic_len | hf_mqtt_will_topic
  | hf_mqtt_will_msg_len | hf_mqtt_will_msg | hf_mqtt_username_len | hf_mqtt_username
  | hf_mqtt_passwd_len | hf_mqtt_passwd | hf_mqtt_pubmsg | hf_mqtt_proto_len
  | hf_mqtt_proto_name | hf_mqtt_client_id_len | hf_mqtt_client_id | hf_mqtt_proto_ver
  | hf_mqtt_conflags | hf_mqtt_conflag_user | hf_mqtt_conflag_passwd
  | hf_mqtt_conflag_will_retain | hf_mqtt_conflag_will_qos | hf_mqtt_conflag_will_flag
  | hf_mqtt_conflag_clean_sess | hf_mqtt_conflag_reserved | hf_mqtt_keep_alive

text \<open>The bitmask column of the \<^verbatim>\<open>hf_mqtt[]\<close> array in \<^verbatim>\<open>proto_register_mqtt\<close>
  (0 means the whole field).\<close>

fun hf_bitmask :: "hf \<Rightarrow> u8" where
  "hf_bitmask hf_mqtt_msg_type = MQTT_MASK_MSG_TYPE"
| "hf_bitmask hf_mqtt_reserved = MQTT_MASK_HDR_RESERVED"
| "hf_bitmask hf_mqtt_dup_reserved = MQTT_MASK_HDR_DUP_RESERVED"
| "hf_bitmask hf_mqtt_dup_flag = MQTT_MASK_DUP_FLAG"
| "hf_bitmask hf_mqtt_qos_level = MQTT_MASK_QOS"
| "hf_bitmask hf_mqtt_retain = MQTT_MASK_RETAIN"
| "hf_bitmask hf_mqtt_conackflag_reserved = MQTT_CONACKMASK_RESERVED"
| "hf_bitmask hf_mqtt_conackflag_sp = MQTT_CONACKMASK_SP"
| "hf_bitmask hf_mqtt_conflag_user = MQTT_CONMASK_USER"
| "hf_bitmask hf_mqtt_conflag_passwd = MQTT_CONMASK_PASSWD"
| "hf_bitmask hf_mqtt_conflag_will_retain = MQTT_CONMASK_RETAIN"
| "hf_bitmask hf_mqtt_conflag_will_qos = MQTT_CONMASK_QOS"
| "hf_bitmask hf_mqtt_conflag_will_flag = MQTT_CONMASK_WILLFLAG"
| "hf_bitmask hf_mqtt_conflag_clean_sess = MQTT_CONMASK_CLEANSESS"
| "hf_bitmask hf_mqtt_conflag_reserved = MQTT_CONMASK_RESERVED"
| "hf_bitmask _ = 0"

text \<open>One entry of the protocol tree: the field, where it starts in the tvbuff, the bytes
  it covers, and, for \<^verbatim>\<open>proto_tree_add_uint\<close> and \<^verbatim>\<open>proto_tree_add_uint64\<close>, the value
  the caller passed.\<close>

record item =
  field :: hf
  start :: nat
  octets :: "u8 list"
  uint_value :: "nat option"

text \<open>What one call of the dissector can change: the conversation's \<^verbatim>\<open>mqtt_conv\<close> and the
  protocol tree, to which entries are appended in the order of the calls.\<close>

record dstate =
  conv :: mqtt_conv
  tree :: "item list"

subsection \<open>Exceptions and state\<close>

text \<open>A step of the dissector runs on the state and either yields a value or throws; what
  it did to the state before throwing stays done, as with the C exceptions.\<close>

type_synonym 'a dis = "dstate \<Rightarrow> (error + 'a) \<times> dstate"

definition ret :: "'a \<Rightarrow> 'a dis" where
  "ret x = (\<lambda>s. (Inr x, s))"

definition seq :: "'a dis \<Rightarrow> ('a \<Rightarrow> 'b dis) \<Rightarrow> 'b dis" where
  "seq m f = (\<lambda>s. case m s of (Inl e, s') \<Rightarrow> (Inl e, s') | (Inr x, s') \<Rightarrow> f x s')"

definition lift :: "error + 'a \<Rightarrow> 'a dis" where
  "lift r = (\<lambda>s. (r, s))"

subsection \<open>Buffer accessors (epan/tvbuff.c, epan/proto.c, epan/dwarf.c)\<close>

text \<open>Modelled from the spec: \<^verbatim>\<open>tvb_get_guint8\<close> is not part of the two source files. The
  specification (4.4 step 6, 7) has a read that would pass the frame's end fail with
  \<^verbatim>\<open>TruncatedFrame\<close>.\<close>

definition tvb_get_guint8 :: "tvbuff \<Rightarrow> nat \<Rightarrow> error + u8" where
  "tvb_get_guint8 tvb offset =
     (if offset < length tvb then Inr (tvb ! offset) else Inl TruncatedFrame)"

text \<open>Modelled from the spec: \<^verbatim>\<open>tvb_get_ntohs\<close> is not part of the two source files. It reads a
  big-endian u16 (specification 6), failing like the other reads.\<close>

definition tvb_get_ntohs :: "tvbuff \<Rightarrow> nat \<Rightarrow> error + nat" where
  "tvb_get_ntohs tvb offset =
     (if offset + 2 \<le> length tvb
      then Inr (unat (tvb ! offset) * 256 + unat (tvb ! (offset + 1)))
      else Inl TruncatedFrame)"

text \<open>Modelled from the spec: \<^verbatim>\<open>tvb_reported_length_remaining\<close> is not part of the two source
  files. It is the number of bytes from the offset to the frame's end ("bytes remain",
  specification 6).\<close>

definition tvb_reported_length_remaining :: "tvbuff \<Rightarrow> nat \<Rightarrow> int" where
  "tvb_reported_length_remaining tvb offset = int (length tvb) - int offset"

definition tvb_captured_length :: "tvbuff \<Rightarrow> nat" where
  "tvb_captured_length tvb = length tvb"

text \<open>Modelled from the spec: \<^verbatim>\<open>proto_tree_add_item\<close> is not part of the two source files. It
  appends the field covering \<^verbatim>\<open>length\<close> bytes at \<^verbatim>\<open>offset\<close>; the specification (4.4 step
  6) has it fail with \<^verbatim>\<open>TruncatedFrame\<close> when the cursor would pass the frame's end or the
  length (the running counter, for the PUBLISH message) is negative.\<close>

definition proto_tree_add_item :: "hf \<Rightarrow> tvbuff \<Rightarrow> nat \<Rightarrow> int \<Rightarrow> unit dis" where
  "proto_tree_add_item h tvb offset len =
     (\<lambda>s. if 0 \<le> len \<and> int offset + len \<le> int (length tvb)
          then (Inr (), s\<lparr>tree := tree s @
                  [\<lparr>field = h, start = offset, octets = take (nat len) (drop offset tvb),
                    uint_value = None\<rparr>]\<rparr>)
          else (Inl TruncatedFrame, s))"

text \<open>Modelled from the spec: \<^verbatim>\<open>proto_tree_add_uint\<close>, \<^verbatim>\<open>proto_tree_add_uint64\<close> and
  \<^verbatim>\<open>proto_tree_add_uint_format_value\<close> are not part of the two source files. They append
  the field with the value the caller computed, under the same bound.\<close>

definition proto_tree_add_uint :: "hf \<Rightarrow> tvbuff \<Rightarrow> nat \<Rightarrow> int \<Rightarrow> nat \<Rightarrow> unit dis" where
  "proto_tree_add_uint h tvb offset len v =
     (\<lambda>s. if 0 \<le> len \<and> int offset + len \<le> int (length tvb)
          then (Inr (), s\<lparr>tree := tree s @
                  [\<lparr>field = h, start = offset, octets = take (nat len) (drop offset tvb),
                    uint_value = Some v\<rparr>]\<rparr>)
          else (Inl TruncatedFrame, s))"

text \<open>Modelled from the spec: \<^verbatim>\<open>dissect_uleb128\<close> (epan/dwarf.c) is not part of the two
  source files. The specification's VarLengthCodec (4.1) reads successive bytes, accumulates
  the low 7 bits of each with the multipliers 1, 128, 128^2, 128^3, stops after the first
  byte with bit 7 clear, fails with \<^verbatim>\<open>MalformedLength\<close> if a 4th byte still has bit 7 set,
  and (4.2) reports \<^verbatim>\<open>NeedMoreBytes\<close> when the bytes end before the field does. The first
  argument counts the bytes already consumed.\<close>

fun uleb128_from :: "nat \<Rightarrow> nat \<Rightarrow> nat \<Rightarrow> u8 list \<Rightarrow> error + (nat \<times> nat)" where
  "uleb128_from n mult acc [] = Inl NeedMoreBytes"
| "uleb128_from n mult acc (b # bs) =
     (let acc' = acc + unat (b AND 0x7F) * mult in
      if b AND 0x80 = 0 then Inr (n + 1, acc')
      else if 4 \<le> n + 1 then Inl MalformedLength
      else uleb128_from (n + 1) (mult * 128) acc' bs)"

text \<open>The result is the pair of the number of bytes consumed (the C return value) and the
  decoded value (the C out-parameter).\<close>

definition dissect_uleb128 :: "tvbuff \<Rightarrow> nat \<Rightarrow> error + (nat \<times> nat)" where
  "dissect_uleb128 tvb offset = uleb128_from 0 1 0 (drop offset tvb)"

subsection \<open>The length probe\<close>

text \<open>\<^verbatim>\<open>#define GET_MQTT_PDU_LEN(msg_len, len_offset) (msg_len + len_offset + MQTT_HDR_SIZE_BEFORE_LEN)\<close>\<close>

definition GET_MQTT_PDU_LEN :: "nat \<Rightarrow> nat \<Rightarrow> nat" where
  "GET_MQTT_PDU_LEN msg_len len_offset = msg_len + len_offset + MQTT_HDR_SIZE_BEFORE_LEN"

text \<open>\<^verbatim>\<open>get_mqtt_pdu_len\<close>: the sum is computed in 64 bits and cast down to \<^verbatim>\<open>guint\<close>.\<close>

definition get_mqtt_pdu_len :: "tvbuff \<Rightarrow> nat \<Rightarrow> error + nat" where
  "get_mqtt_pdu_len tvb offset =
     (case dissect_uleb128 tvb (offset + MQTT_HDR_SIZE_BEFORE_LEN) of
        Inl e \<Rightarrow> Inl e
      | Inr (len_offset, msg_len) \<Rightarrow>
          Inr ((GET_MQTT_PDU_LEN msg_len len_offset mod 2 ^ 64) mod 2 ^ 32))"

subsection \<open>The dissector\<close>

text \<open>\<^verbatim>\<open>conversation_get_proto_data\<close> yields the conversation's \<^verbatim>\<open>mqtt_conv\<close> or NULL; on NULL
  the dissector attaches a zero-filled one (\<^verbatim>\<open>wmem_new0\<close>).\<close>

definition conv_get_or_new :: "mqtt_conv option \<Rightarrow> mqtt_conv" where
  "conv_get_or_new d =
     (case d of None \<Rightarrow> \<lparr>runtime_proto_version = 0\<rparr> | Some mqtt \<Rightarrow> mqtt)"

definition get_runtime_proto_version :: "u8 dis" where
  "get_runtime_proto_version = (\<lambda>s. (Inr (runtime_proto_version (conv s)), s))"

definition set_runtime_proto_version :: "u8 \<Rightarrow> unit dis" where
  "set_runtime_proto_version v = (\<lambda>s. (Inr (), s\<lparr>conv := (conv s)\<lparr>runtime_proto_version := v\<rparr>\<rparr>))"

text \<open>The casts \<^verbatim>\<open>(gint) msg_len\<close> of the 64-bit length and the assignment of the byte count
  to the \<^verbatim>\<open>guint16 mqtt_len_offset\<close>.\<close>

definition gint_of_guint64 :: "nat \<Rightarrow> int" where
  "gint_of_guint64 v = sint (word_of_nat v :: 32 word)"

definition guint16_of_guint :: "nat \<Rightarrow> nat" where
  "guint16_of_guint v = v mod 65536"

text \<open>Lines 295 to 308: the flag bits of the fixed header. The entries go to the flags
  subtree, which the model keeps in the one list, in call order.\<close>

definition dissect_hdr_flags :: "tvbuff \<Rightarrow> nat \<Rightarrow> u8 \<Rightarrow> u8 \<Rightarrow> unit dis" where
  "dissect_hdr_flags tvb offset mqtt_fixed_hdr mqtt_msg_type =
     seq get_runtime_proto_version (\<lambda>version.
     if mqtt_msg_type = MQTT_PUBLISH then
       seq (proto_tree_add_item hf_mqtt_dup_flag tvb offset 1) (\<lambda>_.
       seq (proto_tree_add_item hf_mqtt_qos_level tvb offset 1) (\<lambda>_.
       proto_tree_add_item hf_mqtt_retain tvb offset 1))
     else if version = MQTT_PROTO_V31 \<and>
               (mqtt_msg_type = MQTT_PUBREL \<or> mqtt_msg_type = MQTT_SUBSCRIBE \<or>
                mqtt_msg_type = MQTT_UNSUBSCRIBE) then
       (let hdr_reserved = mqtt_fixed_hdr AND MQTT_MASK_HDR_DUP_RESERVED in
        seq (proto_tree_add_item hf_mqtt_dup_flag tvb offset 1) (\<lambda>_.
        proto_tree_add_uint hf_mqtt_dup_reserved tvb offset 1 (unat hdr_reserved)))
     else
       (let hdr_reserved = mqtt_fixed_hdr AND MQTT_MASK_HDR_RESERVED in
        proto_tree_add_uint hf_mqtt_reserved tvb offset 1 (unat hdr_reserved)))"

text \<open>A length-prefixed string of the CONNECT packet: the u16 length, then the bytes. The
  result is the offset behind it.\<close>

definition dissect_lenstr :: "hf \<Rightarrow> hf \<Rightarrow> tvbuff \<Rightarrow> nat \<Rightarrow> nat dis" where
  "dissect_lenstr hf_len hf_str tvb offset =
     seq (lift (tvb_get_ntohs tvb offset)) (\<lambda>mqtt_str_len.
     seq (proto_tree_add_item hf_len tvb offset 2) (\<lambda>_.
     let offset = offset + 2 in
     seq (proto_tree_add_item hf_str tvb offset (int mqtt_str_len)) (\<lambda>_.
     ret (offset + mqtt_str_len))))"

text \<open>Lines 354 to 371: the will topic and the will message, each under the will flag.\<close>

definition connect_will :: "tvbuff \<Rightarrow> u8 \<Rightarrow> nat \<Rightarrow> nat dis" where
  "connect_will tvb mqtt_con_flags offset =
     seq (if mqtt_con_flags AND MQTT_CONMASK_WILLFLAG \<noteq> 0
          then dissect_lenstr hf_mqtt_will_topic_len hf_mqtt_will_topic tvb offset
          else ret offset) (\<lambda>offset.
     if mqtt_con_flags AND MQTT_CONMASK_WILLFLAG \<noteq> 0
     then dissect_lenstr hf_mqtt_will_msg_len hf_mqtt_will_msg tvb offset
     else ret offset)"

text \<open>Lines 372 to 380.\<close>

definition connect_username :: "tvbuff \<Rightarrow> u8 \<Rightarrow> nat \<Rightarrow> nat dis" where
  "connect_username tvb mqtt_con_flags offset =
     (if mqtt_con_flags AND MQTT_CONMASK_USER \<noteq> 0 \<and>
         tvb_reported_length_remaining tvb offset > 0
      then dissect_lenstr hf_mqtt_username_len hf_mqtt_username tvb offset
      else ret offset)"

text \<open>Lines 381 to 388.\<close>

definition connect_passwd :: "tvbuff \<Rightarrow> u8 \<Rightarrow> nat \<Rightarrow> nat dis" where
  "connect_passwd tvb mqtt_con_flags offset =
     (if mqtt_con_flags AND MQTT_CONMASK_PASSWD \<noteq> 0 \<and>
         tvb_reported_length_remaining tvb offset > 0
      then dissect_lenstr hf_mqtt_passwd_len hf_mqtt_passwd tvb offset
      else ret offset)"

text \<open>Lines 319 to 326: the protocol name, then the version byte, which is stored in the
  conversation. The result is the offset of the version byte.\<close>

definition connect_proto :: "tvbuff \<Rightarrow> nat \<Rightarrow> nat dis" where
  "connect_proto tvb offset =
     seq (dissect_lenstr hf_mqtt_proto_len hf_mqtt_proto_name tvb offset) (\<lambda>offset.
     seq (lift (tvb_get_guint8 tvb offset)) (\<lambda>version.
     seq (set_runtime_proto_version version) (\<lambda>_.
     ret offset)))"

text \<open>Lines 328 to 352: the version entry, the connect flags, the keep-alive and the client
  identifier. The result is the connect flags byte and the offset behind the client
  identifier.\<close>

definition connect_flags :: "tvbuff \<Rightarrow> nat \<Rightarrow> (u8 \<times> nat) dis" where
  "connect_flags tvb offset =
     seq (proto_tree_add_item hf_mqtt_proto_ver tvb offset 1) (\<lambda>_.
     let offset = offset + 1 in
     seq (lift (tvb_get_guint8 tvb offset)) (\<lambda>mqtt_con_flags.
     seq (proto_tree_add_item hf_mqtt_conflags tvb offset 1) (\<lambda>_.
     seq (proto_tree_add_item hf_mqtt_conflag_user tvb offset 1) (\<lambda>_.
     seq (proto_tree_add_item hf_mqtt_conflag_passwd tvb offset 1) (\<lambda>_.
     seq (proto_tree_add_item hf_mqtt_conflag_will_retain tvb offset 1) (\<lambda>_.
     seq (proto_tree_add_item hf_mqtt_conflag_will_qos tvb offset 1) (\<lambda>_.
     seq (proto_tree_add_item hf_mqtt_conflag_will_flag tvb offset 1) (\<lambda>_.
     seq (proto_tree_add_item hf_mqtt_conflag_clean_sess tvb offset 1) (\<lambda>_.
     seq (proto_tree_add_item hf_mqtt_conflag_reserved tvb offset 1) (\<lambda>_.
     let offset = offset + 1 in
     seq (proto_tree_add_item hf_mqtt_keep_alive tvb offset 2) (\<lambda>_.
     let offset = offset + 2 in
     seq (dissect_lenstr hf_mqtt_client_id_len hf_mqtt_client_id tvb offset) (\<lambda>offset.
     ret (mqtt_con_flags, offset)))))))))))))"

text \<open>\<^verbatim>\<open>case MQTT_CONNECT\<close>.\<close>

definition dissect_connect :: "tvbuff \<Rightarrow> nat \<Rightarrow> unit dis" where
  "dissect_connect tvb offset =
     seq (connect_proto tvb offset) (\<lambda>offset.
     seq (connect_flags tvb offset) (\<lambda>(mqtt_con_flags, offset).
     seq (connect_will tvb mqtt_con_flags offset) (\<lambda>offset.
     seq (connect_username tvb mqtt_con_flags offset) (\<lambda>offset.
     seq (connect_passwd tvb mqtt_con_flags offset) (\<lambda>_. ret ())))))"

text \<open>\<^verbatim>\<open>case MQTT_CONNACK\<close>.\<close>

definition dissect_connack :: "tvbuff \<Rightarrow> nat \<Rightarrow> unit dis" where
  "dissect_connack tvb offset =
     seq (proto_tree_add_item hf_mqtt_conack_flags tvb offset 1) (\<lambda>_.
     seq (proto_tree_add_item hf_mqtt_conackflag_reserved tvb offset 1) (\<lambda>_.
     seq (proto_tree_add_item hf_mqtt_conackflag_sp tvb offset 1) (\<lambda>_.
     let offset = offset + 1 in
     proto_tree_add_item hf_mqtt_conack_code tvb offset 1)))"

text \<open>\<^verbatim>\<open>case MQTT_PUBLISH\<close>. \<^verbatim>\<open>mqtt_msg_len\<close> is a \<^verbatim>\<open>gint\<close>; it starts below \<open>2^28\<close> and loses
  at most \<open>65539\<close>, so the subtractions do not wrap.\<close>

definition dissect_publish :: "tvbuff \<Rightarrow> nat \<Rightarrow> u8 \<Rightarrow> int \<Rightarrow> unit dis" where
  "dissect_publish tvb offset mqtt_fixed_hdr mqtt_msg_len =
     seq (lift (tvb_get_ntohs tvb offset)) (\<lambda>mqtt_str_len.
     seq (proto_tree_add_item hf_mqtt_topic_len tvb offset 2) (\<lambda>_.
     let offset = offset + 2; mqtt_msg_len = mqtt_msg_len - 2 in
     seq (proto_tree_add_item hf_mqtt_topic tvb offset (int mqtt_str_len)) (\<lambda>_.
     let offset = offset + mqtt_str_len; mqtt_msg_len = mqtt_msg_len - int mqtt_str_len in
     seq (if mqtt_fixed_hdr AND MQTT_MASK_QOS \<noteq> 0
          then seq (proto_tree_add_item hf_mqtt_msgid tvb offset 2) (\<lambda>_.
               ret (offset + 2, mqtt_msg_len - 2))
          else ret (offset, mqtt_msg_len)) (\<lambda>(offset, mqtt_msg_len).
     proto_tree_add_item hf_mqtt_pubmsg tvb offset mqtt_msg_len))))"

text \<open>The bodies of the three loops. Each yields the offset and the counter after one
  pass.\<close>

definition subscribe_entry :: "tvbuff \<Rightarrow> nat \<Rightarrow> int \<Rightarrow> (nat \<times> int) dis" where
  "subscribe_entry tvb offset mqtt_msg_len =
     seq (lift (tvb_get_ntohs tvb offset)) (\<lambda>mqtt_str_len.
     seq (proto_tree_add_item hf_mqtt_topic_len tvb offset 2) (\<lambda>_.
     let offset = offset + 2; mqtt_msg_len = mqtt_msg_len - 2 in
     seq (proto_tree_add_item hf_mqtt_topic tvb offset (int mqtt_str_len)) (\<lambda>_.
     let offset = offset + mqtt_str_len; mqtt_msg_len = mqtt_msg_len - int mqtt_str_len in
     seq (proto_tree_add_item hf_mqtt_sub_qos tvb offset 1) (\<lambda>_.
     ret (offset + 1, mqtt_msg_len - 1)))))"

definition unsubscribe_entry :: "tvbuff \<Rightarrow> nat \<Rightarrow> int \<Rightarrow> (nat \<times> int) dis" where
  "unsubscribe_entry tvb offset mqtt_msg_len =
     seq (lift (tvb_get_ntohs tvb offset)) (\<lambda>mqtt_str_len.
     seq (proto_tree_add_item hf_mqtt_topic_len tvb offset 2) (\<lambda>_.
     let offset = offset + 2; mqtt_msg_len = mqtt_msg_len - 2 in
     seq (proto_tree_add_item hf_mqtt_topic tvb offset (int mqtt_str_len)) (\<lambda>_.
     ret (offset + mqtt_str_len, mqtt_msg_len - int mqtt_str_len))))"

definition suback_entry :: "tvbuff \<Rightarrow> nat \<Rightarrow> int \<Rightarrow> (nat \<times> int) dis" where
  "suback_entry tvb offset mqtt_msg_len =
     seq (proto_tree_add_item hf_mqtt_suback_qos tvb offset 1) (\<lambda>_.
     ret (offset + 1, mqtt_msg_len - 1))"

text \<open>\<^verbatim>\<open>for(...; mqtt_msg_len > 0;) { ... }\<close> of SUBSCRIBE.\<close>

function subscribe_loop :: "tvbuff \<Rightarrow> nat \<Rightarrow> int \<Rightarrow> dstate \<Rightarrow> (error + nat) \<times> dstate" where
  "subscribe_loop tvb offset mqtt_msg_len s =
     (if mqtt_msg_len > 0 then
        (case subscribe_entry tvb offset mqtt_msg_len s of
           (Inl e, s') \<Rightarrow> (Inl e, s')
         | (Inr (offset', mqtt_msg_len'), s') \<Rightarrow> subscribe_loop tvb offset' mqtt_msg_len' s')
      else (Inr offset, s))"
  by pat_completeness auto
termination
  by (relation "measure (\<lambda>(tvb, offset, mqtt_msg_len, s). nat mqtt_msg_len)")
     (auto simp: subscribe_entry_def seq_def lift_def ret_def proto_tree_add_item_def Let_def
           split: sum.splits prod.splits if_splits)

text \<open>\<^verbatim>\<open>for(...; mqtt_msg_len > 0;) { ... }\<close> of UNSUBSCRIBE.\<close>

function unsubscribe_loop :: "tvbuff \<Rightarrow> nat \<Rightarrow> int \<Rightarrow> dstate \<Rightarrow> (error + nat) \<times> dstate" where
  "unsubscribe_loop tvb offset mqtt_msg_len s =
     (if mqtt_msg_len > 0 then
        (case unsubscribe_entry tvb offset mqtt_msg_len s of
           (Inl e, s') \<Rightarrow> (Inl e, s')
         | (Inr (offset', mqtt_msg_len'), s') \<Rightarrow> unsubscribe_loop tvb offset' mqtt_msg_len' s')
      else (Inr offset, s))"
  by pat_completeness auto
termination
  by (relation "measure (\<lambda>(tvb, offset, mqtt_msg_len, s). nat mqtt_msg_len)")
     (auto simp: unsubscribe_entry_def seq_def lift_def ret_def proto_tree_add_item_def Let_def
           split: sum.splits prod.splits if_splits)

text \<open>\<^verbatim>\<open>for(...; mqtt_msg_len > 0; mqtt_msg_len--) { ... }\<close> of SUBACK.\<close>

function suback_loop :: "tvbuff \<Rightarrow> nat \<Rightarrow> int \<Rightarrow> dstate \<Rightarrow> (error + nat) \<times> dstate" where
  "suback_loop tvb offset mqtt_msg_len s =
     (if mqtt_msg_len > 0 then
        (case suback_entry tvb offset mqtt_msg_len s of
           (Inl e, s') \<Rightarrow> (Inl e, s')
         | (Inr (offset', mqtt_msg_len'), s') \<Rightarrow> suback_loop tvb offset' mqtt_msg_len' s')
      else (Inr offset, s))"
  by pat_completeness auto
termination
  by (relation "measure (\<lambda>(tvb, offset, mqtt_msg_len, s). nat mqtt_msg_len)")
     (auto simp: suback_entry_def seq_def lift_def ret_def proto_tree_add_item_def Let_def
           split: sum.splits prod.splits if_splits)

text \<open>\<^verbatim>\<open>case MQTT_SUBSCRIBE\<close>, \<^verbatim>\<open>case MQTT_UNSUBSCRIBE\<close>, \<^verbatim>\<open>case MQTT_SUBACK\<close>: the message
  identifier, then the loop, entered with the counter less 2.\<close>

definition dissect_subscribe :: "tvbuff \<Rightarrow> nat \<Rightarrow> int \<Rightarrow> unit dis" where
  "dissect_subscribe tvb offset mqtt_msg_len =
     seq (proto_tree_add_item hf_mqtt_msgid tvb offset 2) (\<lambda>_.
     let offset = offset + 2 in
     seq (subscribe_loop tvb offset (mqtt_msg_len - 2)) (\<lambda>_. ret ()))"

definition dissect_unsubscribe :: "tvbuff \<Rightarrow> nat \<Rightarrow> int \<Rightarrow> unit dis" where
  "dissect_unsubscribe tvb offset mqtt_msg_len =
     seq (proto_tree_add_item hf_mqtt_msgid tvb offset 2) (\<lambda>_.
     let offset = offset + 2 in
     seq (unsubscribe_loop tvb offset (mqtt_msg_len - 2)) (\<lambda>_. ret ()))"

definition dissect_suback :: "tvbuff \<Rightarrow> nat \<Rightarrow> int \<Rightarrow> unit dis" where
  "dissect_suback tvb offset mqtt_msg_len =
     seq (proto_tree_add_item hf_mqtt_msgid tvb offset 2) (\<lambda>_.
     let offset = offset + 2 in
     seq (suback_loop tvb offset (mqtt_msg_len - 2)) (\<lambda>_. ret ()))"

text \<open>\<^verbatim>\<open>switch(mqtt_msg_type)\<close>, lines 316 to 496. The types 0 and 15 have no case.\<close>

definition dissect_switch :: "tvbuff \<Rightarrow> nat \<Rightarrow> u8 \<Rightarrow> u8 \<Rightarrow> int \<Rightarrow> unit dis" where
  "dissect_switch tvb offset mqtt_fixed_hdr mqtt_msg_type mqtt_msg_len =
     (if mqtt_msg_type = MQTT_CONNECT then dissect_connect tvb offset
      else if mqtt_msg_type = MQTT_CONNACK then dissect_connack tvb offset
      else if mqtt_msg_type = MQTT_PUBLISH then
        dissect_publish tvb offset mqtt_fixed_hdr mqtt_msg_len
      else if mqtt_msg_type = MQTT_SUBSCRIBE then dissect_subscribe tvb offset mqtt_msg_len
      else if mqtt_msg_type = MQTT_UNSUBSCRIBE then dissect_unsubscribe tvb offset mqtt_msg_len
      else if mqtt_msg_type = MQTT_SUBACK then dissect_suback tvb offset mqtt_msg_len
      else if mqtt_msg_type = MQTT_PUBACK \<or> mqtt_msg_type = MQTT_PUBREC \<or>
              mqtt_msg_type = MQTT_PUBREL \<or> mqtt_msg_type = MQTT_PUBCOMP \<or>
              mqtt_msg_type = MQTT_UNSUBACK then
        proto_tree_add_item hf_mqtt_msgid tvb offset 2
      else ret ())"

text \<open>Lines 263 to 314: the fixed header. The result is the header byte, the message type,
  the counter \<^verbatim>\<open>mqtt_msg_len\<close> and the offset of the variable header. The columns and the
  root entry of the MQTT subtree (which spans the whole tvbuff) are presentation; the list
  holds the entries below that root.\<close>

definition dissect_fixed_hdr :: "tvbuff \<Rightarrow> (u8 \<times> u8 \<times> int \<times> nat) dis" where
  "dissect_fixed_hdr tvb =
     (let offset = 0 in
      seq (lift (tvb_get_guint8 tvb offset)) (\<lambda>mqtt_fixed_hdr.
      let mqtt_msg_type = drop_bit 4 mqtt_fixed_hdr in
      seq (lift (dissect_uleb128 tvb (offset + MQTT_HDR_SIZE_BEFORE_LEN))) (\<lambda>(len_offset, msg_len).
      let mqtt_len_offset = guint16_of_guint len_offset;
          mqtt_msg_len = gint_of_guint64 msg_len in
      seq (proto_tree_add_uint hf_mqtt_hdrflags tvb offset 1 (unat mqtt_fixed_hdr)) (\<lambda>_.
      seq (proto_tree_add_item hf_mqtt_msg_type tvb offset 1) (\<lambda>_.
      seq (dissect_hdr_flags tvb offset mqtt_fixed_hdr mqtt_msg_type) (\<lambda>_.
      let offset = offset + 1 in
      seq (proto_tree_add_uint hf_mqtt_msg_len tvb offset (int mqtt_len_offset) msg_len) (\<lambda>_.
      let offset = offset + mqtt_len_offset in
      ret (mqtt_fixed_hdr, mqtt_msg_type, mqtt_msg_len, offset))))))))"

text \<open>\<^verbatim>\<open>dissect_mqtt\<close>, on the conversation's data as \<^verbatim>\<open>conversation_get_proto_data\<close> finds it
  and an empty subtree. It returns \<^verbatim>\<open>tvb_captured_length(tvb)\<close>.\<close>

definition dissect_mqtt :: "tvbuff \<Rightarrow> mqtt_conv option \<Rightarrow> (error + nat) \<times> dstate" where
  "dissect_mqtt tvb data =
     seq (dissect_fixed_hdr tvb) (\<lambda>(mqtt_fixed_hdr, mqtt_msg_type, mqtt_msg_len, offset).
     seq (dissect_switch tvb offset mqtt_fixed_hdr mqtt_msg_type mqtt_msg_len) (\<lambda>_.
     ret (tvb_captured_length tvb)))
     \<lparr>conv = conv_get_or_new data, tree = []\<rparr>"

subsection \<open>Notions of the specification\<close>

text \<open>Bit 7 of a length byte says that another length byte follows.\<close>

definition continuation :: "u8 \<Rightarrow> bool" where
  "continuation b = (b AND 0x80 \<noteq> 0)"

subsection \<open>Properties of dissection steps\<close>

text \<open>A step appends entries that all satisfy \<open>P\<close> and removes none; a step does not look at
  the conversation data and leaves it alone; a step throws nothing but \<open>TruncatedFrame\<close>.\<close>

definition appends :: "(item \<Rightarrow> bool) \<Rightarrow> 'a dis \<Rightarrow> bool" where
  "appends P m = (\<forall>s. \<exists>xs. tree (snd (m s)) = tree s @ xs \<and> list_all P xs)"

definition conv_indep :: "'a dis \<Rightarrow> bool" where
  "conv_indep m = (\<forall>s c. m (s\<lparr>conv := c\<rparr>) = (fst (m s), (snd (m s))\<lparr>conv := c\<rparr>))"


text \<open>The three readings of the low four bits of the fixed header, and the rule of the
  specification (4.4 step 3) that picks one from the packet type and the stored protocol
  version, \<open>None\<close> when no CONNECT has been seen.\<close>

datatype flag_layout = DupQosRetain | DupReserved | PlainReserved

definition flag_layout_of :: "u8 \<Rightarrow> u8 option \<Rightarrow> flag_layout" where
  "flag_layout_of packet_type protocol_version =
     (if packet_type = MQTT_PUBLISH then DupQosRetain
      else if protocol_version = Some MQTT_PROTO_V31 \<and>
              packet_type \<in> {MQTT_PUBREL, MQTT_SUBSCRIBE, MQTT_UNSUBSCRIBE} then DupReserved
      else PlainReserved)"

text \<open>The entries a reading puts into the tree. Each covers byte 0; which bits it shows is
  the field's bitmask, and the reserved entries carry the masked value.\<close>

definition hdr_item :: "hf \<Rightarrow> u8 \<Rightarrow> nat option \<Rightarrow> item" where
  "hdr_item h b v = \<lparr>field = h, start = 0, octets = [b], uint_value = v\<rparr>"

fun layout_items :: "flag_layout \<Rightarrow> u8 \<Rightarrow> item list" where
  "layout_items DupQosRetain b =
     [hdr_item hf_mqtt_dup_flag b None, hdr_item hf_mqtt_qos_level b None,
      hdr_item hf_mqtt_retain b None]"
| "layout_items DupReserved b =
     [hdr_item hf_mqtt_dup_flag b None,
      hdr_item hf_mqtt_dup_reserved b (Some (unat (b AND 0x07)))]"
| "layout_items PlainReserved b =
     [hdr_item hf_mqtt_reserved b (Some (unat (b AND 0x0F)))]"

text \<open>The fields that show flag bits, and all fields of the fixed header.\<close>

definition flag_fields :: "hf set" where
  "flag_fields = {hf_mqtt_dup_flag, hf_mqtt_qos_level, hf_mqtt_retain, hf_mqtt_dup_reserved,
     hf_mqtt_reserved}"

definition hdr_fields :: "hf set" where
  "hdr_fields = {hf_mqtt_hdrflags, hf_mqtt_msg_type, hf_mqtt_msg_len} \<union> flag_fields"

text \<open>The tree and the state behind the fixed header, for a header byte \<open>b\<close> followed by
  \<open>rest\<close>, whose length field is \<open>n\<close> bytes long and holds \<open>v\<close>.\<close>

definition fixed_hdr_items :: "u8 \<Rightarrow> u8 list \<Rightarrow> nat \<Rightarrow> nat \<Rightarrow> u8 \<Rightarrow> item list" where
  "fixed_hdr_items b rest n v version =
     [hdr_item hf_mqtt_hdrflags b (Some (unat b)), hdr_item hf_mqtt_msg_type b None] @
     layout_items (flag_layout_of (drop_bit 4 b) (Some version)) b @
     [\<lparr>field = hf_mqtt_msg_len, start = 1, octets = take n rest, uint_value = Some v\<rparr>]"

definition fixed_hdr_state :: "mqtt_conv option \<Rightarrow> u8 \<Rightarrow> u8 list \<Rightarrow> nat \<Rightarrow> nat \<Rightarrow> dstate" where
  "fixed_hdr_state data b rest n v =
     \<lparr>conv = conv_get_or_new data,
      tree = fixed_hdr_items b rest n v (runtime_proto_version (conv_get_or_new data))\<rparr>"

text \<open>The big-endian u16 at an offset, and the entry for a span of the frame.\<close>

definition be16 :: "tvbuff \<Rightarrow> nat \<Rightarrow> nat" where
  "be16 tvb offset = unat (tvb ! offset) * 256 + unat (tvb ! (offset + 1))"

definition span_item :: "hf \<Rightarrow> tvbuff \<Rightarrow> nat \<Rightarrow> nat \<Rightarrow> item" where
  "span_item h tvb offset n =
     \<lparr>field = h, start = offset, octets = take n (drop offset tvb), uint_value = None\<rparr>"

text \<open>The variable header and payload of PUBLISH as the specification lays them out (6): the
  topic length, the topic, the message identifier when the QoS bits are not 0, and the
  application message up to the frame's end.\<close>

definition publish_items :: "tvbuff \<Rightarrow> nat \<Rightarrow> u8 \<Rightarrow> item list" where
  "publish_items tvb offset b =
     (let topic_len = be16 tvb offset;
          qos = (if b AND MQTT_MASK_QOS \<noteq> 0 then 2 else 0);
          message = offset + 2 + topic_len + qos
      in [span_item hf_mqtt_topic_len tvb offset 2,
          span_item hf_mqtt_topic tvb (offset + 2) topic_len] @
         (if b AND MQTT_MASK_QOS \<noteq> 0
          then [span_item hf_mqtt_msgid tvb (offset + 2 + topic_len) 2] else []) @
         [span_item hf_mqtt_pubmsg tvb message (length tvb - message)])"

text \<open>The scheme of the three loops with a bound on the number of passes: \<open>None\<close> when the
  counter is still positive after \<open>k\<close> passes.\<close>

fun iterate_entries ::
  "nat \<Rightarrow> (nat \<Rightarrow> int \<Rightarrow> (nat \<times> int) dis) \<Rightarrow> nat \<Rightarrow> int \<Rightarrow> dstate \<Rightarrow> ((error + nat) \<times> dstate) option"
where
  "iterate_entries 0 entry offset mqtt_msg_len s =
     (if mqtt_msg_len > 0 then None else Some (Inr offset, s))"
| "iterate_entries (Suc k) entry offset mqtt_msg_len s =
     (if mqtt_msg_len > 0 then
        (case entry offset mqtt_msg_len s of
           (Inl e, s') \<Rightarrow> Some (Inl e, s')
         | (Inr (offset', mqtt_msg_len'), s') \<Rightarrow> iterate_entries k entry offset' mqtt_msg_len' s')
      else Some (Inr offset, s))"

text \<open>A region of repeated entries splits into whole entries: each is a u16 topic length, that
  many topic bytes and \<open>extra\<close> more bytes (1 for the requested QoS of SUBSCRIBE, 0 for
  UNSUBSCRIBE), and the region ends exactly behind an entry.\<close>

fun whole_entries :: "nat \<Rightarrow> u8 list \<Rightarrow> bool" where
  "whole_entries extra [] = True"
| "whole_entries extra [b] = False"
| "whole_entries extra (hi # lo # bs) =
     (let topic_len = unat hi * 256 + unat lo
      in topic_len + extra \<le> length bs \<and> whole_entries extra (drop (topic_len + extra) bs))"

text \<open>A length-prefixed string at an offset: its two entries, and the offset behind it.\<close>

definition lenstr_items :: "hf \<Rightarrow> hf \<Rightarrow> tvbuff \<Rightarrow> nat \<Rightarrow> item list" where
  "lenstr_items h_len h_str tvb offset =
     [span_item h_len tvb offset 2, span_item h_str tvb (offset + 2) (be16 tvb offset)]"

definition lenstr_end :: "tvbuff \<Rightarrow> nat \<Rightarrow> nat" where
  "lenstr_end tvb offset = offset + 2 + be16 tvb offset"

text \<open>The CONNECT layout of the specification (6), read off the frame from the offset of the
  variable header: where the version byte is, the connect flags byte, and the offsets behind
  the client identifier and behind the will fields.\<close>

definition connect_version_at :: "tvbuff \<Rightarrow> nat \<Rightarrow> nat" where
  "connect_version_at tvb offset = lenstr_end tvb offset"

definition connect_flags_at :: "tvbuff \<Rightarrow> nat \<Rightarrow> u8" where
  "connect_flags_at tvb offset = tvb ! (connect_version_at tvb offset + 1)"

definition connect_client_end :: "tvbuff \<Rightarrow> nat \<Rightarrow> nat" where
  "connect_client_end tvb offset = lenstr_end tvb (connect_version_at tvb offset + 4)"

definition connect_will_end :: "tvbuff \<Rightarrow> nat \<Rightarrow> nat" where
  "connect_will_end tvb offset =
     (if connect_flags_at tvb offset AND MQTT_CONMASK_WILLFLAG \<noteq> 0
      then lenstr_end tvb (lenstr_end tvb (connect_client_end tvb offset))
      else connect_client_end tvb offset)"

text \<open>The user name is decoded when its flag is set and at least one byte remains behind the
  will fields; the password when its flag is set and at least one byte remains behind the
  user name.\<close>

definition username_decoded :: "tvbuff \<Rightarrow> nat \<Rightarrow> bool" where
  "username_decoded tvb offset =
     (connect_flags_at tvb offset AND MQTT_CONMASK_USER \<noteq> 0 \<and>
      connect_will_end tvb offset < length tvb)"

definition connect_username_end :: "tvbuff \<Rightarrow> nat \<Rightarrow> nat" where
  "connect_username_end tvb offset =
     (if username_decoded tvb offset then lenstr_end tvb (connect_will_end tvb offset)
      else connect_will_end tvb offset)"

definition passwd_decoded :: "tvbuff \<Rightarrow> nat \<Rightarrow> bool" where
  "passwd_decoded tvb offset =
     (connect_flags_at tvb offset AND MQTT_CONMASK_PASSWD \<noteq> 0 \<and>
      connect_username_end tvb offset < length tvb)"

definition connect_passwd_end :: "tvbuff \<Rightarrow> nat \<Rightarrow> nat" where
  "connect_passwd_end tvb offset =
     (if passwd_decoded tvb offset then lenstr_end tvb (connect_username_end tvb offset)
      else connect_username_end tvb offset)"

text \<open>The entries of a CONNECT packet.\<close>

definition connect_head_items :: "tvbuff \<Rightarrow> nat \<Rightarrow> item list" where
  "connect_head_items tvb offset =
     (let version = connect_version_at tvb offset in
      lenstr_items hf_mqtt_proto_len hf_mqtt_proto_name tvb offset @
      [span_item hf_mqtt_proto_ver tvb version 1] @
      map (\<lambda>h. span_item h tvb (version + 1) 1)
        [hf_mqtt_conflags, hf_mqtt_conflag_user, hf_mqtt_conflag_passwd,
         hf_mqtt_conflag_will_retain, hf_mqtt_conflag_will_qos, hf_mqtt_conflag_will_flag,
         hf_mqtt_conflag_clean_sess, hf_mqtt_conflag_reserved] @
      [span_item hf_mqtt_keep_alive tvb (version + 2) 2] @
      lenstr_items hf_mqtt_client_id_len hf_mqtt_client_id tvb (version + 4))"

definition connect_will_items :: "tvbuff \<Rightarrow> nat \<Rightarrow> item list" where
  "connect_will_items tvb offset =
     (if connect_flags_at tvb offset AND MQTT_CONMASK_WILLFLAG \<noteq> 0
      then lenstr_items hf_mqtt_will_topic_len hf_mqtt_will_topic tvb
             (connect_client_end tvb offset) @
           lenstr_items hf_mqtt_will_msg_len hf_mqtt_will_msg tvb
             (lenstr_end tvb (connect_client_end tvb offset))
      else [])"

definition connect_items :: "tvbuff \<Rightarrow> nat \<Rightarrow> item list" where
  "connect_items tvb offset =
     connect_head_items tvb offset @ connect_will_items tvb offset @
     (if username_decoded tvb offset
      then lenstr_items hf_mqtt_username_len hf_mqtt_username tvb (connect_will_end tvb offset)
      else []) @
     (if passwd_decoded tvb offset
      then lenstr_items hf_mqtt_passwd_len hf_mqtt_passwd tvb (connect_username_end tvb offset)
      else [])"

section \<open>Properties\<close>

lemmas msg_type_defs =
  MQTT_RESERVED_def MQTT_CONNECT_def MQTT_CONNACK_def MQTT_PUBLISH_def MQTT_PUBACK_def
  MQTT_PUBREC_def MQTT_PUBREL_def MQTT_PUBCOMP_def MQTT_SUBSCRIBE_def MQTT_SUBACK_def
  MQTT_UNSUBSCRIBE_def MQTT_UNSUBACK_def MQTT_PINGREQ_def MQTT_PINGRESP_def
  MQTT_DISCONNECT_def MQTT_RESERVED_15_def

lemmas mask_defs =
  MQTT_MASK_MSG_TYPE_def MQTT_MASK_HDR_RESERVED_def MQTT_MASK_HDR_DUP_RESERVED_def
  MQTT_MASK_QOS_def MQTT_MASK_DUP_FLAG_def MQTT_MASK_RETAIN_def MQTT_CONMASK_USER_def
  MQTT_CONMASK_PASSWD_def MQTT_CONMASK_RETAIN_def MQTT_CONMASK_QOS_def
  MQTT_CONMASK_WILLFLAG_def MQTT_CONMASK_CLEANSESS_def MQTT_CONMASK_RESERVED_def
  MQTT_CONACKMASK_RESERVED_def MQTT_CONACKMASK_SP_def

subsection \<open>The remaining-length field\<close>

lemma uleb128_from_count:
  "uleb128_from n mult acc bs = Inr (k, v) \<Longrightarrow> n < 4 \<Longrightarrow> n < k \<and> k \<le> 4"
proof (induction bs arbitrary: n mult acc)
  case Nil
  then show ?case by simp
next
  case (Cons b bs)
  show ?case
  proof (cases "b AND 0x80 = 0")
    case True
    with Cons.prems show ?thesis by (simp add: Let_def)
  next
    case False
    with Cons.prems have n3: "n + 1 < 4" and
      rec: "uleb128_from (n + 1) (mult * 128) (acc + unat (b AND 0x7F) * mult) bs = Inr (k, v)"
      by (auto simp: Let_def split: if_splits)
    from Cons.IH [OF rec n3] show ?thesis by simp
  qed
qed

lemma low7_le: "unat ((b::u8) AND 0x7F) \<le> 127"
proof -
  have "unat (b AND 0x7F) \<le> unat (0x7F :: u8)"
    by (rule word_and_le1 [THEN word_le_nat_alt [THEN iffD1]])
  then show ?thesis by simp
qed

lemma uleb128_from_bound:
  "uleb128_from n mult acc bs = Inr (k, v) \<Longrightarrow> n < 4 \<Longrightarrow>
     v + mult \<le> acc + mult * 128 ^ (k - n)"
proof (induction bs arbitrary: n mult acc)
  case Nil
  then show ?case by simp
next
  case (Cons b bs)
  have le: "unat (b AND 0x7F) * mult \<le> 127 * mult"
    using low7_le [of b] by simp
  show ?case
  proof (cases "b AND 0x80 = 0")
    case True
    with Cons.prems have "k = n + 1" "v = acc + unat (b AND 0x7F) * mult"
      by (auto simp: Let_def)
    with le show ?thesis by simp
  next
    case False
    with Cons.prems have n3: "n + 1 < 4" and
      rec: "uleb128_from (n + 1) (mult * 128) (acc + unat (b AND 0x7F) * mult) bs = Inr (k, v)"
      by (auto simp: Let_def split: if_splits)
    from uleb128_from_count [OF rec n3] have "k - n = Suc (k - (n + 1))" by arith
    then have pw: "mult * 128 ^ (k - n) = mult * 128 * 128 ^ (k - (n + 1))" by simp
    from Cons.IH [OF rec n3]
    have "v + mult * 128 \<le> acc + unat (b AND 0x7F) * mult + mult * 128 * 128 ^ (k - (n + 1))" .
    with le pw show ?thesis by arith
  qed
qed

lemma dissect_uleb128_bound:
  assumes "dissect_uleb128 tvb offset = Inr (k, v)"
  shows "1 \<le> k \<and> k \<le> 4 \<and> v < 2 ^ 28"
proof -
  from assms have r: "uleb128_from 0 1 0 (drop offset tvb) = Inr (k, v)"
    by (simp add: dissect_uleb128_def)
  from uleb128_from_count [OF r] have k: "0 < k" "k \<le> 4" by simp_all
  from uleb128_from_bound [OF r] have "v + 1 \<le> 128 ^ k" by simp
  also have "(128::nat) ^ k \<le> 128 ^ 4" using k by (intro power_increasing) simp_all
  finally show ?thesis using k by simp
qed

lemma uleb128_from_take:
  "n < 4 \<Longrightarrow> uleb128_from n mult acc (take (4 - n) bs) = uleb128_from n mult acc bs"
proof (induction bs arbitrary: n mult acc)
  case Nil
  then show ?case by simp
next
  case (Cons b bs)
  then obtain m where m: "4 - n = Suc m" by (cases "4 - n") auto
  show ?case
  proof (cases "n + 1 < 4")
    case True
    with m have "m = 4 - (n + 1)" by arith
    with Cons.IH [OF True] m show ?thesis by (simp add: Let_def)
  next
    case False
    with m show ?thesis by (simp add: Let_def)
  qed
qed

lemma dissect_uleb128_take:
  "dissect_uleb128 (take (offset + 4) tvb) offset = dissect_uleb128 tvb offset"
proof -
  have "drop offset (take (offset + 4) tvb) = take 4 (drop offset tvb)"
    by (simp add: drop_take)
  then show ?thesis
    using uleb128_from_take [of 0 1 0 "drop offset tvb"] by (simp add: dissect_uleb128_def)
qed

text \<open>Claim C5. When the remaining-length field at \<open>offset + 1\<close> decodes to
  \<open>remaining_length\<close> in \<open>len_bytes\<close> bytes, the length probe returns exactly
  \<open>1 + len_bytes + remaining_length\<close>: the 64-bit sum and the cast to 32 bits lose nothing.
  When the field does not decode, the probe fails the same way. In both cases the result is
  that of the probe on the first 5 bytes from the frame boundary alone.\<close>

theorem get_mqtt_pdu_len_total:
  "(dissect_uleb128 tvb (offset + 1) = Inr (len_bytes, remaining_length) \<longrightarrow>
      get_mqtt_pdu_len tvb offset = Inr (1 + len_bytes + remaining_length)) \<and>
   (dissect_uleb128 tvb (offset + 1) = Inl e \<longrightarrow> get_mqtt_pdu_len tvb offset = Inl e) \<and>
   get_mqtt_pdu_len (take (offset + 5) tvb) offset = get_mqtt_pdu_len tvb offset"
proof (intro conjI impI)
  assume d: "dissect_uleb128 tvb (offset + 1) = Inr (len_bytes, remaining_length)"
  from dissect_uleb128_bound [OF d]
  have "remaining_length + len_bytes + 1 < 2 ^ 32" by simp
  then have "(remaining_length + len_bytes + 1) mod 2 ^ 64 mod 2 ^ 32 =
     remaining_length + len_bytes + 1" by simp
  with d show "get_mqtt_pdu_len tvb offset = Inr (1 + len_bytes + remaining_length)"
    by (simp add: get_mqtt_pdu_len_def GET_MQTT_PDU_LEN_def MQTT_HDR_SIZE_BEFORE_LEN_def
        del: One_nat_def)
next
  assume "dissect_uleb128 tvb (offset + 1) = Inl e"
  then show "get_mqtt_pdu_len tvb offset = Inl e"
    by (simp add: get_mqtt_pdu_len_def MQTT_HDR_SIZE_BEFORE_LEN_def)
next
  have "dissect_uleb128 (take (offset + 1 + 4) tvb) (offset + 1) = dissect_uleb128 tvb (offset + 1)"
    by (rule dissect_uleb128_take)
  then show "get_mqtt_pdu_len (take (offset + 5) tvb) offset = get_mqtt_pdu_len tvb offset"
    by (simp add: get_mqtt_pdu_len_def MQTT_HDR_SIZE_BEFORE_LEN_def add.commute add.left_commute)
qed

text \<open>The probe on a two-byte length field: \<open>0xC1 0x02\<close> is 65 + 2 * 128 = 321.\<close>

theorem get_mqtt_pdu_len_total_witness:
  "dissect_uleb128 [0x30, 0xC1, 0x02, 0x99] 1 = Inr (2, 321) \<and>
   get_mqtt_pdu_len [0x30, 0xC1, 0x02, 0x99] 0 = Inr 324"
  using get_mqtt_pdu_len_total [of "[0x30, 0xC1, 0x02, 0x99]" 0 2 321]
  by (simp add: dissect_uleb128_def)

lemma uleb128_from_stops:
  "n + i < 4 \<Longrightarrow> i < length bs \<Longrightarrow> \<forall>j<i. continuation (bs ! j) \<Longrightarrow> \<not> continuation (bs ! i) \<Longrightarrow>
     \<exists>v. uleb128_from n mult acc bs = Inr (n + i + 1, v)"
proof (induction bs arbitrary: n mult acc i)
  case Nil
  then show ?case by simp
next
  case (Cons b bs)
  show ?case
  proof (cases i)
    case 0
    with Cons.prems show ?thesis by (simp add: continuation_def Let_def)
  next
    case (Suc i')
    with Cons.prems have b: "b AND 0x80 \<noteq> 0" by (auto simp: continuation_def)
    from Suc Cons.prems have "n + 1 + i' < 4" "i' < length bs"
      "\<forall>j<i'. continuation (bs ! j)" "\<not> continuation (bs ! i')" by auto
    from Cons.IH [OF this, of "mult * 128" "acc + unat (b AND 0x7F) * mult"]
    show ?thesis using b Suc Cons.prems(1) by (simp add: Let_def)
  qed
qed

lemma uleb128_from_malformed:
  "n < 4 \<Longrightarrow> 4 - n \<le> length bs \<Longrightarrow> \<forall>j<4 - n. continuation (bs ! j) \<Longrightarrow>
     uleb128_from n mult acc bs = Inl MalformedLength"
proof (induction bs arbitrary: n mult acc)
  case Nil
  then show ?case by simp
next
  case (Cons b bs)
  from Cons.prems(1) Cons.prems(3)[rule_format, of 0] have b: "b AND 0x80 \<noteq> 0"
    by (simp add: continuation_def)
  show ?case
  proof (cases "n + 1 < 4")
    case True
    with Cons.prems have "4 - (n + 1) \<le> length bs" by simp
    moreover have "\<forall>j<4 - (n + 1). continuation (bs ! j)"
    proof (intro allI impI)
      fix j assume "j < 4 - (n + 1)"
      with Cons.prems(3) have "continuation ((b # bs) ! Suc j)" by (intro Cons.prems(3)[rule_format]) arith
      then show "continuation (bs ! j)" by simp
    qed
    ultimately show ?thesis using Cons.IH [OF True] b True by (simp add: Let_def)
  next
    case False
    with b show ?thesis by (simp add: Let_def)
  qed
qed

lemma uleb128_from_short:
  "length bs < 4 - n \<Longrightarrow> \<forall>j<length bs. continuation (bs ! j) \<Longrightarrow>
     uleb128_from n mult acc bs = Inl NeedMoreBytes"
proof (induction bs arbitrary: n mult acc)
  case Nil
  then show ?case by simp
next
  case (Cons b bs)
  from Cons.prems have b: "b AND 0x80 \<noteq> 0" by (auto simp: continuation_def)
  from Cons.prems have "length bs < 4 - (n + 1)" by simp
  moreover from Cons.prems(2) have "\<forall>j<length bs. continuation (bs ! j)" by auto
  ultimately show ?case using Cons.IH [of "n + 1"] b Cons.prems(1) by (simp add: Let_def)
qed

text \<open>Claim C3, as amended. Let \<open>bs\<close> be the bytes from the start of the remaining-length
  field. If \<open>bs\<close> has four bytes and each of the first four has bit 7 set, decoding fails with
  \<open>MalformedLength\<close>. If the first byte with bit 7 clear is at index \<open>i < 4\<close>, decoding stops
  there and consumes \<open>i + 1\<close> bytes, between 1 and 4. If \<open>bs\<close> ends after fewer than four
  bytes, all with bit 7 set, decoding reports \<open>NeedMoreBytes\<close>.\<close>

theorem dissect_uleb128_outcomes:
  fixes tvb :: tvbuff and offset :: nat
  defines "bs \<equiv> drop offset tvb"
  shows "(4 \<le> length bs \<and> (\<forall>j<4. continuation (bs ! j)) \<longrightarrow>
            dissect_uleb128 tvb offset = Inl MalformedLength) \<and>
         (i < 4 \<and> i < length bs \<and> (\<forall>j<i. continuation (bs ! j)) \<and> \<not> continuation (bs ! i) \<longrightarrow>
            (\<exists>v. dissect_uleb128 tvb offset = Inr (i + 1, v))) \<and>
         (length bs < 4 \<and> (\<forall>j<length bs. continuation (bs ! j)) \<longrightarrow>
            dissect_uleb128 tvb offset = Inl NeedMoreBytes)"
  unfolding dissect_uleb128_def bs_def [symmetric]
  using uleb128_from_malformed [of 0 bs 1 0] uleb128_from_stops [of 0 i bs 1 0]
    uleb128_from_short [of bs 0 1 0]
  by simp

text \<open>One frame start for each of the three outcomes.\<close>

theorem dissect_uleb128_outcomes_witness:
  "dissect_uleb128 [0x30, 0x80, 0x80, 0x80, 0x80, 0x01] 1 = Inl MalformedLength \<and>
   (\<exists>v. dissect_uleb128 [0x30, 0xC1, 0x02] 1 = Inr (2, v)) \<and>
   dissect_uleb128 [0x30, 0x80, 0x80] 1 = Inl NeedMoreBytes"
proof -
  have lt: "\<And>P. (\<forall>j<4::nat. P j) \<longleftrightarrow> P 0 \<and> P 1 \<and> P 2 \<and> P 3"
    "\<And>P. (\<forall>j<2::nat. P j) \<longleftrightarrow> P 0 \<and> P 1" "\<And>P. (\<forall>j<1::nat. P j) \<longleftrightarrow> P 0"
    by (auto simp: less_Suc_eq numeral_eq_Suc)
  have h1: "4 \<le> length (drop 1 [0x30, 0x80, 0x80, 0x80, 0x80, 0x01 :: u8]) \<and>
      (\<forall>j<4. continuation (drop 1 [0x30, 0x80, 0x80, 0x80, 0x80, 0x01 :: u8] ! j))"
    by (simp add: lt continuation_def)
  have h2: "(1::nat) < 4 \<and> 1 < length (drop 1 [0x30, 0xC1, 0x02 :: u8]) \<and>
      (\<forall>j<1. continuation (drop 1 [0x30, 0xC1, 0x02 :: u8] ! j)) \<and>
      \<not> continuation (drop 1 [0x30, 0xC1, 0x02 :: u8] ! 1)"
    by (simp add: lt continuation_def)
  have h3: "length (drop 1 [0x30, 0x80, 0x80 :: u8]) < 4 \<and>
      (\<forall>j<length (drop 1 [0x30, 0x80, 0x80 :: u8]). continuation (drop 1 [0x30, 0x80, 0x80 :: u8] ! j))"
    by (simp add: All_less_Suc continuation_def)
  from h1 h2 h3
    dissect_uleb128_outcomes [where tvb = "[0x30, 0x80, 0x80, 0x80, 0x80, 0x01]" and offset = 1 and i = 0]
    dissect_uleb128_outcomes [where tvb = "[0x30, 0xC1, 0x02]" and offset = 1 and i = 1]
    dissect_uleb128_outcomes [where tvb = "[0x30, 0x80, 0x80]" and offset = 1 and i = 0]
  show ?thesis by (simp del: drop_Suc_Cons drop_0 length_drop add: numeral_2_eq_2 [symmetric])
qed

text \<open>Claim C3 as stated fails on a length field cut after a continuation byte: the bytes
  are not four continuation bytes, and no byte with bit 7 clear is there to stop at.\<close>

theorem dissect_uleb128_short_counterexample:
  "dissect_uleb128 [0x30, 0x80] 1 = Inl NeedMoreBytes"
  by (simp add: dissect_uleb128_def)

subsection \<open>Casts and bytes consumed\<close>

lemma gint_of_guint64_small: "v < 2 ^ 28 \<Longrightarrow> gint_of_guint64 v = int v"
proof -
  assume v: "v < 2 ^ 28"
  have "signed_take_bit 31 (int v) = int v"
    using v by (intro signed_take_bit_int_eq_self) simp_all
  then show ?thesis by (simp add: gint_of_guint64_def signed_of_nat)
qed

lemma guint16_of_guint_small: "n \<le> 4 \<Longrightarrow> guint16_of_guint n = n"
  by (simp add: guint16_of_guint_def)

lemma uleb128_from_consumed:
  "uleb128_from n mult acc bs = Inr (k, v) \<Longrightarrow> k \<le> n + length bs"
proof (induction bs arbitrary: n mult acc)
  case Nil
  then show ?case by simp
next
  case (Cons b bs)
  show ?case
  proof (cases "b AND 0x80 = 0")
    case True
    with Cons.prems show ?thesis by (simp add: Let_def)
  next
    case False
    with Cons.prems have
      rec: "uleb128_from (n + 1) (mult * 128) (acc + unat (b AND 0x7F) * mult) bs = Inr (k, v)"
      by (auto simp: Let_def split: if_splits)
    from Cons.IH [OF rec] show ?thesis by simp
  qed
qed

lemma dissect_uleb128_consumed:
  "dissect_uleb128 tvb offset = Inr (k, v) \<Longrightarrow> offset + k \<le> length tvb"
proof -
  assume a: "dissect_uleb128 tvb offset = Inr (k, v)"
  then have r: "uleb128_from 0 1 0 (drop offset tvb) = Inr (k, v)"
    by (simp add: dissect_uleb128_def)
  from uleb128_from_consumed [OF r] have k: "k \<le> length tvb - offset" by simp
  have "drop offset tvb \<noteq> []" using r by auto
  then have "offset < length tvb" by simp
  with k show ?thesis by simp
qed

subsection \<open>Closure of the step properties\<close>

lemma appends_ret: "appends P (ret x)"
  by (simp add: appends_def ret_def)

lemma appends_lift: "appends P (lift r)"
  by (simp add: appends_def lift_def)

lemma appends_seq: "appends P m \<Longrightarrow> (\<And>x. appends P (f x)) \<Longrightarrow> appends P (seq m f)"
proof (unfold appends_def, intro allI)
  fix s
  assume m: "\<forall>s. \<exists>xs. tree (snd (m s)) = tree s @ xs \<and> list_all P xs"
    and f: "\<And>x. \<forall>s. \<exists>xs. tree (snd (f x s)) = tree s @ xs \<and> list_all P xs"
  obtain r s' where ms: "m s = (r, s')" by (cases "m s")
  from m [rule_format, of s] ms obtain xs where xs: "tree s' = tree s @ xs" "list_all P xs"
    by auto
  show "\<exists>xs. tree (snd (seq m f s)) = tree s @ xs \<and> list_all P xs"
  proof (cases r)
    case (Inl e)
    with ms xs show ?thesis by (auto simp: seq_def)
  next
    case (Inr x)
    from f [of x] obtain ys where "tree (snd (f x s')) = tree s' @ ys" "list_all P ys" by blast
    with Inr ms xs show ?thesis by (auto simp: seq_def)
  qed
qed

lemma appends_item: "(\<And>st oc. P \<lparr>field = h, start = st, octets = oc, uint_value = None\<rparr>) \<Longrightarrow>
    appends P (proto_tree_add_item h tvb offset len)"
  by (simp add: appends_def proto_tree_add_item_def)

lemma appends_uint: "(\<And>st oc v. P \<lparr>field = h, start = st, octets = oc, uint_value = Some v\<rparr>) \<Longrightarrow>
    appends P (proto_tree_add_uint h tvb offset len v)"
  by (simp add: appends_def proto_tree_add_uint_def)

lemma appends_if: "(c \<Longrightarrow> appends P a) \<Longrightarrow> (\<not> c \<Longrightarrow> appends P b) \<Longrightarrow> appends P (if c then a else b)"
  by simp

lemma appends_get: "appends P get_runtime_proto_version"
  by (simp add: appends_def get_runtime_proto_version_def)

lemma appends_set: "appends P (set_runtime_proto_version v)"
  by (simp add: appends_def set_runtime_proto_version_def)

lemmas appends_intros = appends_ret appends_lift appends_seq appends_item appends_uint appends_if
  appends_get appends_set

lemma conv_indep_ret: "conv_indep (ret x)"
  by (simp add: conv_indep_def ret_def)

lemma conv_indep_lift: "conv_indep (lift r)"
  by (simp add: conv_indep_def lift_def)

lemma conv_indep_seq: "conv_indep m \<Longrightarrow> (\<And>x. conv_indep (f x)) \<Longrightarrow> conv_indep (seq m f)"
proof (unfold conv_indep_def, intro allI)
  fix s c
  assume m: "\<forall>s c. m (s\<lparr>conv := c\<rparr>) = (fst (m s), (snd (m s))\<lparr>conv := c\<rparr>)"
    and f: "\<And>x. \<forall>s c. f x (s\<lparr>conv := c\<rparr>) = (fst (f x s), (snd (f x s))\<lparr>conv := c\<rparr>)"
  obtain r s' where ms: "m s = (r, s')" by (cases "m s")
  with m have mc: "m (s\<lparr>conv := c\<rparr>) = (r, s'\<lparr>conv := c\<rparr>)" by simp
  show "seq m f (s\<lparr>conv := c\<rparr>) = (fst (seq m f s), (snd (seq m f s))\<lparr>conv := c\<rparr>)"
  proof (cases r)
    case (Inl e)
    with ms mc show ?thesis by (simp add: seq_def)
  next
    case (Inr x)
    with ms mc f [of x] show ?thesis by (simp add: seq_def)
  qed
qed

lemma conv_indep_item: "conv_indep (proto_tree_add_item h tvb offset len)"
  by (simp add: conv_indep_def proto_tree_add_item_def)

lemma conv_indep_uint: "conv_indep (proto_tree_add_uint h tvb offset len v)"
  by (simp add: conv_indep_def proto_tree_add_uint_def)

lemma conv_indep_if: "(c \<Longrightarrow> conv_indep a) \<Longrightarrow> (\<not> c \<Longrightarrow> conv_indep b) \<Longrightarrow> conv_indep (if c then a else b)"
  by simp

lemmas conv_indep_intros = conv_indep_ret conv_indep_lift conv_indep_seq conv_indep_item
  conv_indep_uint conv_indep_if

lemma conv_indep_keeps: "conv_indep m \<Longrightarrow> conv (snd (m s)) = conv s"
proof -
  assume "conv_indep m"
  then have "m (s\<lparr>conv := conv s\<rparr>) = (fst (m s), (snd (m s))\<lparr>conv := conv s\<rparr>)"
    unfolding conv_indep_def by blast
  then have "m s = (fst (m s), (snd (m s))\<lparr>conv := conv s\<rparr>)" by simp
  then have "snd (m s) = (snd (m s))\<lparr>conv := conv s\<rparr>" by (metis snd_conv)
  then have "conv (snd (m s)) = conv ((snd (m s))\<lparr>conv := conv s\<rparr>)" by simp
  then show ?thesis by simp
qed











lemma appends_step:
  "appends P m \<Longrightarrow> m s = (r, s') \<Longrightarrow> \<exists>xs. tree s' = tree s @ xs \<and> list_all P xs"
  unfolding appends_def by (metis snd_conv)

lemma appends_case_prod:
  "(\<And>a b. appends P (f a b)) \<Longrightarrow> appends P (case x of (a, b) \<Rightarrow> f a b)"
  by (cases x) simp

lemma conv_indep_step:
  "conv_indep m \<Longrightarrow> m s = (r, s') \<Longrightarrow> m (s\<lparr>conv := c\<rparr>) = (r, s'\<lparr>conv := c\<rparr>)"
  unfolding conv_indep_def by (metis fst_conv snd_conv)

lemma conv_indep_case_prod:
  "(\<And>a b. conv_indep (f a b)) \<Longrightarrow> conv_indep (case x of (a, b) \<Rightarrow> f a b)"
  by (cases x) simp


subsection \<open>Induction over the loops\<close>

lemma subscribe_loop_rel_induct [case_names stop fail step]:
  assumes stop: "\<And>tvb offset len s. \<not> 0 < len \<Longrightarrow> Q tvb offset len s (Inr offset, s)"
    and fail: "\<And>tvb offset len s e s'. 0 < len \<Longrightarrow>
      subscribe_entry tvb offset len s = (Inl e, s') \<Longrightarrow> Q tvb offset len s (Inl e, s')"
    and step: "\<And>tvb offset len s offset' len' s'. 0 < len \<Longrightarrow>
      subscribe_entry tvb offset len s = (Inr (offset', len'), s') \<Longrightarrow>
      Q tvb offset' len' s' (subscribe_loop tvb offset' len' s') \<Longrightarrow>
      Q tvb offset len s (subscribe_loop tvb offset' len' s')"
  shows "Q tvb offset len s (subscribe_loop tvb offset len s)"
proof (induction tvb offset len s rule: subscribe_loop.induct)
  case (1 tvb offset len s)
  obtain r s' where e: "subscribe_entry tvb offset len s = (r, s')"
    by (cases "subscribe_entry tvb offset len s")
  show ?case
  proof (cases "0 < len")
    case False
    with stop [OF False] show ?thesis by simp
  next
    case True
    show ?thesis
    proof (cases r)
      case (Inl err)
      with True e fail [OF True, of tvb offset s err s'] show ?thesis by simp
    next
      case (Inr p)
      obtain offset' len' where p: "p = (offset', len')" by (cases p)
      from "1.IH" [OF True e [symmetric] Inr p [symmetric]]
      have "Q tvb offset' len' s' (subscribe_loop tvb offset' len' s')" .
      with step [OF True, of tvb offset s offset' len' s'] e Inr p
      have "Q tvb offset len s (subscribe_loop tvb offset' len' s')" by simp
      with True e Inr p show ?thesis by simp
    qed
  qed
qed

lemma unsubscribe_loop_rel_induct [case_names stop fail step]:
  assumes stop: "\<And>tvb offset len s. \<not> 0 < len \<Longrightarrow> Q tvb offset len s (Inr offset, s)"
    and fail: "\<And>tvb offset len s e s'. 0 < len \<Longrightarrow>
      unsubscribe_entry tvb offset len s = (Inl e, s') \<Longrightarrow> Q tvb offset len s (Inl e, s')"
    and step: "\<And>tvb offset len s offset' len' s'. 0 < len \<Longrightarrow>
      unsubscribe_entry tvb offset len s = (Inr (offset', len'), s') \<Longrightarrow>
      Q tvb offset' len' s' (unsubscribe_loop tvb offset' len' s') \<Longrightarrow>
      Q tvb offset len s (unsubscribe_loop tvb offset' len' s')"
  shows "Q tvb offset len s (unsubscribe_loop tvb offset len s)"
proof (induction tvb offset len s rule: unsubscribe_loop.induct)
  case (1 tvb offset len s)
  obtain r s' where e: "unsubscribe_entry tvb offset len s = (r, s')"
    by (cases "unsubscribe_entry tvb offset len s")
  show ?case
  proof (cases "0 < len")
    case False
    with stop [OF False] show ?thesis by simp
  next
    case True
    show ?thesis
    proof (cases r)
      case (Inl err)
      with True e fail [OF True, of tvb offset s err s'] show ?thesis by simp
    next
      case (Inr p)
      obtain offset' len' where p: "p = (offset', len')" by (cases p)
      from "1.IH" [OF True e [symmetric] Inr p [symmetric]]
      have "Q tvb offset' len' s' (unsubscribe_loop tvb offset' len' s')" .
      with step [OF True, of tvb offset s offset' len' s'] e Inr p
      have "Q tvb offset len s (unsubscribe_loop tvb offset' len' s')" by simp
      with True e Inr p show ?thesis by simp
    qed
  qed
qed

lemma suback_loop_rel_induct [case_names stop fail step]:
  assumes stop: "\<And>tvb offset len s. \<not> 0 < len \<Longrightarrow> Q tvb offset len s (Inr offset, s)"
    and fail: "\<And>tvb offset len s e s'. 0 < len \<Longrightarrow>
      suback_entry tvb offset len s = (Inl e, s') \<Longrightarrow> Q tvb offset len s (Inl e, s')"
    and step: "\<And>tvb offset len s offset' len' s'. 0 < len \<Longrightarrow>
      suback_entry tvb offset len s = (Inr (offset', len'), s') \<Longrightarrow>
      Q tvb offset' len' s' (suback_loop tvb offset' len' s') \<Longrightarrow>
      Q tvb offset len s (suback_loop tvb offset' len' s')"
  shows "Q tvb offset len s (suback_loop tvb offset len s)"
proof (induction tvb offset len s rule: suback_loop.induct)
  case (1 tvb offset len s)
  obtain r s' where e: "suback_entry tvb offset len s = (r, s')"
    by (cases "suback_entry tvb offset len s")
  show ?case
  proof (cases "0 < len")
    case False
    with stop [OF False] show ?thesis by simp
  next
    case True
    show ?thesis
    proof (cases r)
      case (Inl err)
      with True e fail [OF True, of tvb offset s err s'] show ?thesis by simp
    next
      case (Inr p)
      obtain offset' len' where p: "p = (offset', len')" by (cases p)
      from "1.IH" [OF True e [symmetric] Inr p [symmetric]]
      have "Q tvb offset' len' s' (suback_loop tvb offset' len' s')" .
      with step [OF True, of tvb offset s offset' len' s'] e Inr p
      have "Q tvb offset len s (suback_loop tvb offset' len' s')" by simp
      with True e Inr p show ?thesis by simp
    qed
  qed
qed

lemma subscribe_entry_appends:
  assumes "hf_mqtt_topic_len \<in> S"
    and "hf_mqtt_topic \<in> S"
    and "hf_mqtt_sub_qos \<in> S"
  shows "appends (\<lambda>i. field i \<in> S) (subscribe_entry tvb offset len)"
  unfolding subscribe_entry_def Let_def by (intro appends_intros; simp add: assms)

lemma subscribe_loop_appends:
  assumes "hf_mqtt_topic_len \<in> S"
    and "hf_mqtt_topic \<in> S"
    and "hf_mqtt_sub_qos \<in> S"
  shows "appends (\<lambda>i. field i \<in> S) (subscribe_loop tvb offset len)"
proof -
  note en = subscribe_entry_appends [of S, OF assms]
  have "\<exists>xs. tree (snd (subscribe_loop tvb offset len s)) = tree s @ xs \<and>
      list_all (\<lambda>i. field i \<in> S) xs" for s
  proof (induction tvb offset len s rule: subscribe_loop_rel_induct)
    case (stop tvb offset len s)
    then show ?case by simp
  next
    case (fail tvb offset len s e s')
    from appends_step [OF en fail(2)] show ?case by simp
  next
    case (step tvb offset len s offset' len' s')
    from appends_step [OF en step(2)] step(3) show ?case by auto
  qed
  then show ?thesis by (simp add: appends_def)
qed

lemma subscribe_entry_conv_indep: "conv_indep (subscribe_entry tvb offset len)"
  unfolding subscribe_entry_def Let_def by (intro conv_indep_intros)

lemma subscribe_loop_conv_indep: "conv_indep (subscribe_loop tvb offset len)"
proof -
  have "\<forall>c. subscribe_loop tvb offset len (s\<lparr>conv := c\<rparr>) =
      (fst (subscribe_loop tvb offset len s), (snd (subscribe_loop tvb offset len s))\<lparr>conv := c\<rparr>)" for s
  proof (induction tvb offset len s rule: subscribe_loop_rel_induct)
    case (stop tvb offset len s)
    then show ?case by simp
  next
    case (fail tvb offset len s e s')
    from conv_indep_step [OF subscribe_entry_conv_indep fail(2)] fail(1)
    show ?case by simp
  next
    case (step tvb offset len s offset' len' s')
    from conv_indep_step [OF subscribe_entry_conv_indep step(2)] step(1) step(3)
    show ?case by simp
  qed
  then show ?thesis by (simp add: conv_indep_def)
qed



lemma unsubscribe_entry_appends:
  assumes "hf_mqtt_topic_len \<in> S"
    and "hf_mqtt_topic \<in> S"
  shows "appends (\<lambda>i. field i \<in> S) (unsubscribe_entry tvb offset len)"
  unfolding unsubscribe_entry_def Let_def by (intro appends_intros; simp add: assms)

lemma unsubscribe_loop_appends:
  assumes "hf_mqtt_topic_len \<in> S"
    and "hf_mqtt_topic \<in> S"
  shows "appends (\<lambda>i. field i \<in> S) (unsubscribe_loop tvb offset len)"
proof -
  note en = unsubscribe_entry_appends [of S, OF assms]
  have "\<exists>xs. tree (snd (unsubscribe_loop tvb offset len s)) = tree s @ xs \<and>
      list_all (\<lambda>i. field i \<in> S) xs" for s
  proof (induction tvb offset len s rule: unsubscribe_loop_rel_induct)
    case (stop tvb offset len s)
    then show ?case by simp
  next
    case (fail tvb offset len s e s')
    from appends_step [OF en fail(2)] show ?case by simp
  next
    case (step tvb offset len s offset' len' s')
    from appends_step [OF en step(2)] step(3) show ?case by auto
  qed
  then show ?thesis by (simp add: appends_def)
qed

lemma unsubscribe_entry_conv_indep: "conv_indep (unsubscribe_entry tvb offset len)"
  unfolding unsubscribe_entry_def Let_def by (intro conv_indep_intros)

lemma unsubscribe_loop_conv_indep: "conv_indep (unsubscribe_loop tvb offset len)"
proof -
  have "\<forall>c. unsubscribe_loop tvb offset len (s\<lparr>conv := c\<rparr>) =
      (fst (unsubscribe_loop tvb offset len s), (snd (unsubscribe_loop tvb offset len s))\<lparr>conv := c\<rparr>)" for s
  proof (induction tvb offset len s rule: unsubscribe_loop_rel_induct)
    case (stop tvb offset len s)
    then show ?case by simp
  next
    case (fail tvb offset len s e s')
    from conv_indep_step [OF unsubscribe_entry_conv_indep fail(2)] fail(1)
    show ?case by simp
  next
    case (step tvb offset len s offset' len' s')
    from conv_indep_step [OF unsubscribe_entry_conv_indep step(2)] step(1) step(3)
    show ?case by simp
  qed
  then show ?thesis by (simp add: conv_indep_def)
qed



lemma suback_entry_appends:
  assumes "hf_mqtt_suback_qos \<in> S"
  shows "appends (\<lambda>i. field i \<in> S) (suback_entry tvb offset len)"
  unfolding suback_entry_def Let_def by (intro appends_intros; simp add: assms)

lemma suback_loop_appends:
  assumes "hf_mqtt_suback_qos \<in> S"
  shows "appends (\<lambda>i. field i \<in> S) (suback_loop tvb offset len)"
proof -
  note en = suback_entry_appends [of S, OF assms]
  have "\<exists>xs. tree (snd (suback_loop tvb offset len s)) = tree s @ xs \<and>
      list_all (\<lambda>i. field i \<in> S) xs" for s
  proof (induction tvb offset len s rule: suback_loop_rel_induct)
    case (stop tvb offset len s)
    then show ?case by simp
  next
    case (fail tvb offset len s e s')
    from appends_step [OF en fail(2)] show ?case by simp
  next
    case (step tvb offset len s offset' len' s')
    from appends_step [OF en step(2)] step(3) show ?case by auto
  qed
  then show ?thesis by (simp add: appends_def)
qed

lemma suback_entry_conv_indep: "conv_indep (suback_entry tvb offset len)"
  unfolding suback_entry_def Let_def by (intro conv_indep_intros)

lemma suback_loop_conv_indep: "conv_indep (suback_loop tvb offset len)"
proof -
  have "\<forall>c. suback_loop tvb offset len (s\<lparr>conv := c\<rparr>) =
      (fst (suback_loop tvb offset len s), (snd (suback_loop tvb offset len s))\<lparr>conv := c\<rparr>)" for s
  proof (induction tvb offset len s rule: suback_loop_rel_induct)
    case (stop tvb offset len s)
    then show ?case by simp
  next
    case (fail tvb offset len s e s')
    from conv_indep_step [OF suback_entry_conv_indep fail(2)] fail(1)
    show ?case by simp
  next
    case (step tvb offset len s offset' len' s')
    from conv_indep_step [OF suback_entry_conv_indep step(2)] step(1) step(3)
    show ?case by simp
  qed
  then show ?thesis by (simp add: conv_indep_def)
qed



subsection \<open>The fixed header\<close>

lemma dissect_hdr_flags_eq:
  "dissect_hdr_flags (b # rest) 0 b t s =
     (Inr (), s\<lparr>tree := tree s @
        layout_items (flag_layout_of t (Some (runtime_proto_version (conv s)))) b\<rparr>)"
  by (simp add: dissect_hdr_flags_def flag_layout_of_def seq_def get_runtime_proto_version_def
      proto_tree_add_item_def proto_tree_add_uint_def hdr_item_def Let_def mask_defs)

lemma dissect_fixed_hdr_eq:
  assumes len: "dissect_uleb128 (b # rest) 1 = Inr (n, v)"
  shows "dissect_fixed_hdr (b # rest) s =
     (Inr (b, drop_bit 4 b, int v, 1 + n),
      s\<lparr>tree := tree s @
        [hdr_item hf_mqtt_hdrflags b (Some (unat b)), hdr_item hf_mqtt_msg_type b None] @
        layout_items (flag_layout_of (drop_bit 4 b) (Some (runtime_proto_version (conv s)))) b @
        [\<lparr>field = hf_mqtt_msg_len, start = 1, octets = take n rest, uint_value = Some v\<rparr>]\<rparr>)"
proof -
  from dissect_uleb128_bound [OF len] have n: "n \<le> 4" and v: "v < 2 ^ 28" by simp_all
  from dissect_uleb128_consumed [OF len] have nl: "n \<le> length rest" by simp
  have g8: "tvb_get_guint8 (b # rest) 0 = Inr b" by (simp add: tvb_get_guint8_def)
  show ?thesis
    unfolding dissect_fixed_hdr_def Let_def
    using len nl
    by (simp add: g8 seq_def lift_def ret_def MQTT_HDR_SIZE_BEFORE_LEN_def
        guint16_of_guint_small [OF n] gint_of_guint64_small [OF v]
        dissect_hdr_flags_eq proto_tree_add_item_def proto_tree_add_uint_def
        hdr_item_def)
qed

lemma dissect_lenstr_appends:
  "h1 \<in> S \<Longrightarrow> h2 \<in> S \<Longrightarrow> appends (\<lambda>i. field i \<in> S) (dissect_lenstr h1 h2 tvb offset)"
  unfolding dissect_lenstr_def Let_def by (intro appends_intros; simp)

lemma dissect_lenstr_conv_indep: "conv_indep (dissect_lenstr h1 h2 tvb offset)"
  unfolding dissect_lenstr_def Let_def by (intro conv_indep_intros)


lemma connect_flags_conv_indep: "conv_indep (connect_flags tvb offset)"
  unfolding connect_flags_def Let_def
  by (intro conv_indep_intros dissect_lenstr_conv_indep)

lemma connect_will_conv_indep: "conv_indep (connect_will tvb f offset)"
  unfolding connect_will_def by (intro conv_indep_intros dissect_lenstr_conv_indep)

lemma connect_username_conv_indep: "conv_indep (connect_username tvb f offset)"
  unfolding connect_username_def by (intro conv_indep_intros dissect_lenstr_conv_indep)

lemma connect_passwd_conv_indep: "conv_indep (connect_passwd tvb f offset)"
  unfolding connect_passwd_def by (intro conv_indep_intros dissect_lenstr_conv_indep)

lemma dissect_switch_conv_indep:
  "t \<noteq> MQTT_CONNECT \<Longrightarrow> conv_indep (dissect_switch tvb offset b t len)"
  unfolding dissect_switch_def dissect_connack_def dissect_publish_def dissect_subscribe_def
    dissect_unsubscribe_def dissect_suback_def Let_def
  by (intro conv_indep_intros conv_indep_case_prod subscribe_loop_conv_indep
      unsubscribe_loop_conv_indep suback_loop_conv_indep) simp


lemma dissect_switch_appends:
  "appends (\<lambda>i. field i \<in> - hdr_fields) (dissect_switch tvb offset b t len)"
  unfolding dissect_switch_def dissect_connect_def connect_proto_def connect_flags_def
    connect_will_def connect_username_def connect_passwd_def
    dissect_connack_def dissect_publish_def dissect_subscribe_def
    dissect_unsubscribe_def dissect_suback_def Let_def
  by (intro appends_intros appends_case_prod subscribe_loop_appends
      unsubscribe_loop_appends suback_loop_appends dissect_lenstr_appends;
      simp add: hdr_fields_def flag_fields_def)

lemma dissect_mqtt_unfold:
  assumes len: "dissect_uleb128 (b # rest) 1 = Inr (n, v)"
  shows "dissect_mqtt (b # rest) data =
     (case dissect_switch (b # rest) (1 + n) b (drop_bit 4 b) (int v)
             (fixed_hdr_state data b rest n v) of
        (Inl e, s') \<Rightarrow> (Inl e, s')
      | (Inr _, s') \<Rightarrow> (Inr (Suc (length rest)), s'))"
  by (simp add: dissect_mqtt_def seq_def ret_def dissect_fixed_hdr_eq [OF len]
      fixed_hdr_state_def fixed_hdr_items_def tvb_captured_length_def
      split: prod.splits sum.splits)

lemma dissect_mqtt_snd:
  assumes len: "dissect_uleb128 (b # rest) 1 = Inr (n, v)"
  shows "snd (dissect_mqtt (b # rest) data) =
     snd (dissect_switch (b # rest) (1 + n) b (drop_bit 4 b) (int v)
            (fixed_hdr_state data b rest n v))"
  by (simp add: dissect_mqtt_unfold [OF len] split: prod.splits sum.splits)

lemma dissect_mqtt_bad_len:
  assumes len: "dissect_uleb128 (b # rest) 1 = Inl e"
  shows "dissect_mqtt (b # rest) data = (Inl e, \<lparr>conv = conv_get_or_new data, tree = []\<rparr>)"
  using len
  by (simp add: dissect_mqtt_def dissect_fixed_hdr_def seq_def lift_def tvb_get_guint8_def
      MQTT_HDR_SIZE_BEFORE_LEN_def Let_def)

lemma fixed_hdr_items_fields: "field ` set (fixed_hdr_items b rest n v version) \<subseteq> hdr_fields"
  by (cases "flag_layout_of (drop_bit 4 b) (Some version)")
     (auto simp: fixed_hdr_items_def hdr_item_def hdr_fields_def flag_fields_def)

lemma layout_items_flag_fields:
  "filter (\<lambda>i. field i \<in> flag_fields) (layout_items l b) = layout_items l b"
  by (cases l) (simp_all add: flag_fields_def hdr_item_def)

lemma filter_fixed_hdr_items:
  "filter (\<lambda>i. field i \<in> flag_fields) (fixed_hdr_items b rest n v version) =
     layout_items (flag_layout_of (drop_bit 4 b) (Some version)) b"
  by (simp add: fixed_hdr_items_def layout_items_flag_fields)
     (simp add: flag_fields_def hdr_item_def)

lemma flag_layout_of_unset:
  "flag_layout_of t (Some (runtime_proto_version (conv_get_or_new data))) =
     flag_layout_of t (map_option runtime_proto_version data)"
  by (cases data) (simp_all add: flag_layout_of_def conv_get_or_new_def MQTT_PROTO_V31_def)

text \<open>Claim C1. For every frame whose remaining-length field decodes, the entries of the
  resulting tree that show flag bits of the fixed header are exactly those of the rule: DUP,
  QoS and RETAIN for PUBLISH; DUP and a 3-bit reserved value for PUBREL, SUBSCRIBE and
  UNSUBSCRIBE when the stored version is 3; a 4-bit reserved value in every other case, also
  when the conversation has no data yet. The variable header adds none.\<close>

theorem hdr_flag_bits_rule:
  assumes len: "dissect_uleb128 (mqtt_fixed_hdr # rest) 1 = Inr (len_bytes, remaining_length)"
  shows "filter (\<lambda>i. field i \<in> flag_fields) (tree (snd (dissect_mqtt (mqtt_fixed_hdr # rest) data))) =
     layout_items (flag_layout_of (drop_bit 4 mqtt_fixed_hdr)
       (map_option runtime_proto_version data)) mqtt_fixed_hdr"
proof -
  let ?s1 = "fixed_hdr_state data mqtt_fixed_hdr rest len_bytes remaining_length"
  let ?sw = "dissect_switch (mqtt_fixed_hdr # rest) (1 + len_bytes) mqtt_fixed_hdr
     (drop_bit 4 mqtt_fixed_hdr) (int remaining_length)"
  from dissect_switch_appends [unfolded appends_def, rule_format, of _ _ _ _ _ ?s1]
  obtain xs where xs: "tree (snd (?sw ?s1)) = tree ?s1 @ xs"
    "list_all (\<lambda>i. field i \<in> - hdr_fields) xs" by blast
  from xs(2) have "filter (\<lambda>i. field i \<in> flag_fields) xs = []"
    by (induction xs) (auto simp: hdr_fields_def)
  with xs(1) show ?thesis
    by (simp add: dissect_mqtt_snd [OF len] fixed_hdr_state_def filter_fixed_hdr_items
        flag_layout_of_unset)
qed

text \<open>A SUBSCRIBE with header byte \<open>0x82\<close> on a v3.1 conversation: DUP and the reserved
  bits \<open>0x82 AND 0x07 = 2\<close>.\<close>

theorem hdr_flag_bits_rule_witness:
  "dissect_uleb128 [0x82, 0x06, 0x00, 0x01, 0x00, 0x01, 0x61, 0x00] 1 = Inr (1, 6) \<and>
   filter (\<lambda>i. field i \<in> flag_fields)
     (tree (snd (dissect_mqtt [0x82, 0x06, 0x00, 0x01, 0x00, 0x01, 0x61, 0x00]
        (Some \<lparr>runtime_proto_version = 3\<rparr>)))) =
   [hdr_item hf_mqtt_dup_flag 0x82 None, hdr_item hf_mqtt_dup_reserved 0x82 (Some 2)]"
proof -
  have len: "dissect_uleb128 [0x82, 0x06, 0x00, 0x01, 0x00, 0x01, 0x61, 0x00] 1 = Inr (1, 6)"
    by (simp add: dissect_uleb128_def)
  have "flag_layout_of (drop_bit 4 (0x82 :: u8)) (Some 3) = DupReserved"
    by (simp add: flag_layout_of_def msg_type_defs MQTT_PROTO_V31_def drop_bit_eq_div)
  with len hdr_flag_bits_rule [OF len, of "Some \<lparr>runtime_proto_version = 3\<rparr>"]
  show ?thesis by simp
qed

subsection \<open>The conversation data\<close>

lemma connect_proto_eq:
  assumes len: "tvb_get_ntohs tvb offset = Inr plen" and ver: "offset + 2 + plen < length tvb"
  shows "connect_proto tvb offset s =
     (Inr (offset + 2 + plen),
      s\<lparr>conv := (conv s)\<lparr>runtime_proto_version := tvb ! (offset + 2 + plen)\<rparr>,
        tree := tree s @
          [\<lparr>field = hf_mqtt_proto_len, start = offset, octets = take 2 (drop offset tvb),
            uint_value = None\<rparr>,
           \<lparr>field = hf_mqtt_proto_name, start = offset + 2,
            octets = take plen (drop (offset + 2) tvb), uint_value = None\<rparr>]\<rparr>)"
  using ver
  by (simp add: connect_proto_def dissect_lenstr_def seq_def lift_def ret_def len Let_def
      proto_tree_add_item_def tvb_get_guint8_def set_runtime_proto_version_def)

lemma connect_rest_keeps:
  "conv (snd (seq (connect_flags tvb offset) (\<lambda>(mqtt_con_flags, offset).
     seq (connect_will tvb mqtt_con_flags offset) (\<lambda>offset.
     seq (connect_username tvb mqtt_con_flags offset) (\<lambda>offset.
     seq (connect_passwd tvb mqtt_con_flags offset) (\<lambda>_. ret ())))) s)) = conv s"
  by (intro conv_indep_keeps conv_indep_intros conv_indep_case_prod connect_flags_conv_indep
      connect_will_conv_indep connect_username_conv_indep connect_passwd_conv_indep)

lemma dissect_connect_version:
  assumes len: "tvb_get_ntohs tvb offset = Inr plen" and ver: "offset + 2 + plen < length tvb"
  shows "runtime_proto_version (conv (snd (dissect_connect tvb offset s))) =
     tvb ! (offset + 2 + plen)"
  by (simp add: dissect_connect_def seq_def [of "connect_proto tvb offset"]
      connect_proto_eq [OF len ver] connect_rest_keeps)

text \<open>Claim C7. A frame of any type but CONNECT leaves the conversation data as the
  dissector found it (the zero-filled record where it found none), whether the frame decodes
  or not. A CONNECT frame whose protocol name lies before a version byte stores that byte as
  \<open>runtime_proto_version\<close>, whatever follows it.\<close>

theorem conv_written_by_connect_only:
  "(drop_bit 4 b \<noteq> MQTT_CONNECT \<longrightarrow>
      conv (snd (dissect_mqtt (b # rest) data)) = conv_get_or_new data) \<and>
   (drop_bit 4 b = MQTT_CONNECT \<and> dissect_uleb128 (b # rest) 1 = Inr (n, v) \<and>
    tvb_get_ntohs (b # rest) (1 + n) = Inr proto_name_len \<and>
    1 + n + 2 + proto_name_len < length (b # rest) \<longrightarrow>
      runtime_proto_version (conv (snd (dissect_mqtt (b # rest) data))) =
        (b # rest) ! (1 + n + 2 + proto_name_len))"
proof (intro conjI impI)
  assume t: "drop_bit 4 b \<noteq> MQTT_CONNECT"
  show "conv (snd (dissect_mqtt (b # rest) data)) = conv_get_or_new data"
  proof (cases "dissect_uleb128 (b # rest) 1")
    case (Inl e)
    then show ?thesis by (simp add: dissect_mqtt_bad_len)
  next
    case (Inr p)
    obtain n v where p: "p = (n, v)" by (cases p)
    with Inr have len: "dissect_uleb128 (b # rest) 1 = Inr (n, v)" by simp
    show ?thesis
      by (simp add: dissect_mqtt_snd [OF len] conv_indep_keeps [OF dissect_switch_conv_indep [OF t]]
          fixed_hdr_state_def)
  qed
next
  assume a: "drop_bit 4 b = MQTT_CONNECT \<and> dissect_uleb128 (b # rest) 1 = Inr (n, v) \<and>
    tvb_get_ntohs (b # rest) (1 + n) = Inr proto_name_len \<and>
    1 + n + 2 + proto_name_len < length (b # rest)"
  then have t: "drop_bit 4 b = MQTT_CONNECT" and len: "dissect_uleb128 (b # rest) 1 = Inr (n, v)"
    and pl: "tvb_get_ntohs (b # rest) (1 + n) = Inr proto_name_len"
    and ver: "1 + n + 2 + proto_name_len < length (b # rest)" by simp_all
  show "runtime_proto_version (conv (snd (dissect_mqtt (b # rest) data))) =
        (b # rest) ! (1 + n + 2 + proto_name_len)"
    using dissect_connect_version [OF pl ver, of "fixed_hdr_state data b rest n v"]
    by (simp add: dissect_mqtt_snd [OF len] dissect_switch_def t)
qed

text \<open>A PINGREQ on a v3.1 conversation, and the CONNECT of the specification's example on a
  conversation without data.\<close>

theorem conv_written_by_connect_only_witness:
  "drop_bit 4 (0xC0 :: u8) \<noteq> MQTT_CONNECT \<and>
   conv (snd (dissect_mqtt [0xC0, 0x00] (Some \<lparr>runtime_proto_version = 3\<rparr>))) =
     conv_get_or_new (Some \<lparr>runtime_proto_version = 3\<rparr>) \<and>
   drop_bit 4 (0x10 :: u8) = MQTT_CONNECT \<and>
   dissect_uleb128 [0x10, 0x11, 0x00, 0x04, 0x4D, 0x51, 0x54, 0x54, 0x04, 0x02, 0x00, 0x3C,
     0x00, 0x03, 0x61, 0x62, 0x63] 1 = Inr (1, 17) \<and>
   tvb_get_ntohs [0x10, 0x11, 0x00, 0x04, 0x4D, 0x51, 0x54, 0x54, 0x04, 0x02, 0x00, 0x3C,
     0x00, 0x03, 0x61, 0x62, 0x63] (1 + 1) = Inr 4 \<and>
   runtime_proto_version (conv (snd (dissect_mqtt
     [0x10, 0x11, 0x00, 0x04, 0x4D, 0x51, 0x54, 0x54, 0x04, 0x02, 0x00, 0x3C,
      0x00, 0x03, 0x61, 0x62, 0x63] None))) = 4"
proof -
  let ?connect = "[0x11, 0x00, 0x04, 0x4D, 0x51, 0x54, 0x54, 0x04, 0x02, 0x00, 0x3C,
      0x00, 0x03, 0x61, 0x62, 0x63] :: u8 list"
  have t1: "drop_bit 4 (0xC0 :: u8) \<noteq> MQTT_CONNECT"
    by (simp add: MQTT_CONNECT_def drop_bit_eq_div)
  have t2: "drop_bit 4 (0x10 :: u8) = MQTT_CONNECT"
    by (simp add: MQTT_CONNECT_def drop_bit_eq_div)
  have len: "dissect_uleb128 (0x10 # ?connect) 1 = Inr (1, 17)"
    by (simp add: dissect_uleb128_def)
  have pl: "tvb_get_ntohs (0x10 # ?connect) (1 + 1) = Inr 4"
    by (simp add: tvb_get_ntohs_def)
  have ver: "1 + 1 + 2 + 4 < length (0x10 # ?connect)"
    by simp
  have nth: "(0x10 # ?connect) ! (1 + 1 + 2 + 4) = 4"
    by simp
  from t1 conv_written_by_connect_only [where b = "0xC0" and rest = "[0x00]"
      and data = "Some \<lparr>runtime_proto_version = 3\<rparr>"]
  have a: "conv (snd (dissect_mqtt [0xC0, 0x00] (Some \<lparr>runtime_proto_version = 3\<rparr>))) =
     conv_get_or_new (Some \<lparr>runtime_proto_version = 3\<rparr>)"
    by blast
  from t2 len pl ver conv_written_by_connect_only [where b = "0x10"
      and rest = ?connect and data = None and n = 1 and v = 17 and proto_name_len = 4]
  have "runtime_proto_version (conv (snd (dissect_mqtt (0x10 # ?connect) None))) =
     (0x10 # ?connect) ! (1 + 1 + 2 + 4)"
    by blast
  then have b: "runtime_proto_version (conv (snd (dissect_mqtt (0x10 # ?connect) None))) = 4"
    by (rule trans) (rule nth)
  from t1 t2 len pl a b show ?thesis by (intro conjI)
qed

subsection \<open>CONNACK\<close>

lemma dissect_connack_eq:
  assumes "offset + 2 \<le> length tvb"
  shows "dissect_connack tvb offset s =
     (Inr (), s\<lparr>tree := tree s @
        [\<lparr>field = hf_mqtt_conack_flags, start = offset, octets = [tvb ! offset],
          uint_value = None\<rparr>,
         \<lparr>field = hf_mqtt_conackflag_reserved, start = offset, octets = [tvb ! offset],
          uint_value = None\<rparr>,
         \<lparr>field = hf_mqtt_conackflag_sp, start = offset, octets = [tvb ! offset],
          uint_value = None\<rparr>,
         \<lparr>field = hf_mqtt_conack_code, start = offset + 1, octets = [tvb ! (offset + 1)],
          uint_value = None\<rparr>]\<rparr>)"
proof -
  from assms have 1: "take (Suc 0) (drop offset tvb) = [tvb ! offset]"
    by (simp add: take_Suc_conv_app_nth)
  from assms have 2: "take (Suc 0) (drop (Suc offset) tvb) = [tvb ! (Suc offset)]"
    by (simp add: take_Suc_conv_app_nth)
  from assms show ?thesis
    by (simp add: dissect_connack_def seq_def proto_tree_add_item_def Let_def 1 2)
qed

text \<open>Claim C10. For a CONNACK frame the result and the tree do not depend on the conversation
  data the dissector starts from. When the two bytes are there, the first is shown as the
  flags byte, split by the masks \<open>0xFE\<close> (reserved) and \<open>0x01\<close> (session present), and the
  second as the return code.\<close>

theorem connack_ignores_version:
  assumes t: "drop_bit 4 b = MQTT_CONNACK"
  shows "fst (dissect_mqtt (b # rest) data) = fst (dissect_mqtt (b # rest) data') \<and>
     tree (snd (dissect_mqtt (b # rest) data)) = tree (snd (dissect_mqtt (b # rest) data')) \<and>
     (dissect_uleb128 (b # rest) 1 = Inr (n, v) \<and> n + 2 \<le> length rest \<longrightarrow>
        fst (dissect_mqtt (b # rest) data) = Inr (length (b # rest)) \<and>
        tree (snd (dissect_mqtt (b # rest) data)) =
          [hdr_item hf_mqtt_hdrflags b (Some (unat b)), hdr_item hf_mqtt_msg_type b None,
           hdr_item hf_mqtt_reserved b (Some (unat (b AND 0x0F))),
           \<lparr>field = hf_mqtt_msg_len, start = 1, octets = take n rest, uint_value = Some v\<rparr>,
           \<lparr>field = hf_mqtt_conack_flags, start = 1 + n, octets = [rest ! n],
            uint_value = None\<rparr>,
           \<lparr>field = hf_mqtt_conackflag_reserved, start = 1 + n, octets = [rest ! n],
            uint_value = None\<rparr>,
           \<lparr>field = hf_mqtt_conackflag_sp, start = 1 + n, octets = [rest ! n],
            uint_value = None\<rparr>,
           \<lparr>field = hf_mqtt_conack_code, start = 2 + n, octets = [rest ! (n + 1)],
            uint_value = None\<rparr>] \<and>
        hf_bitmask hf_mqtt_conackflag_reserved = 0xFE \<and>
        hf_bitmask hf_mqtt_conackflag_sp = 0x01)"
proof -
  have ne: "drop_bit 4 b \<noteq> MQTT_CONNECT" using t by (simp add: msg_type_defs)
  have plain: "flag_layout_of (drop_bit 4 b) version = PlainReserved" for version
    using t by (simp add: flag_layout_of_def msg_type_defs)
  have st: "fixed_hdr_state d' b rest k w = (fixed_hdr_state d b rest k w)\<lparr>conv := conv_get_or_new d'\<rparr>"
    for d d' k w
    by (simp add: fixed_hdr_state_def fixed_hdr_items_def plain)
  have indep: "fst (dissect_mqtt (b # rest) data) = fst (dissect_mqtt (b # rest) data') \<and>
     tree (snd (dissect_mqtt (b # rest) data)) = tree (snd (dissect_mqtt (b # rest) data'))"
  proof (cases "dissect_uleb128 (b # rest) 1")
    case (Inl e)
    then show ?thesis by (simp add: dissect_mqtt_bad_len)
  next
    case (Inr p)
    obtain k w where p: "p = (k, w)" by (cases p)
    with Inr have len: "dissect_uleb128 (b # rest) 1 = Inr (k, w)" by simp
    let ?sw = "dissect_switch (b # rest) (1 + k) b (drop_bit 4 b) (int w)"
    obtain r s' where sw: "?sw (fixed_hdr_state data b rest k w) = (r, s')"
      by (cases "?sw (fixed_hdr_state data b rest k w)")
    from conv_indep_step [OF dissect_switch_conv_indep [OF ne] sw, of "conv_get_or_new data'"]
    have "?sw (fixed_hdr_state data' b rest k w) = (r, s'\<lparr>conv := conv_get_or_new data'\<rparr>)"
      by (simp add: st [where d' = data' and d = data])
    with sw show ?thesis
      by (simp add: dissect_mqtt_unfold [OF len] split: prod.splits sum.splits)
  qed
  have expl: "fst (dissect_mqtt (b # rest) data) = Inr (length (b # rest)) \<and>
        tree (snd (dissect_mqtt (b # rest) data)) =
          [hdr_item hf_mqtt_hdrflags b (Some (unat b)), hdr_item hf_mqtt_msg_type b None,
           hdr_item hf_mqtt_reserved b (Some (unat (b AND 0x0F))),
           \<lparr>field = hf_mqtt_msg_len, start = 1, octets = take n rest, uint_value = Some v\<rparr>,
           \<lparr>field = hf_mqtt_conack_flags, start = 1 + n, octets = [rest ! n],
            uint_value = None\<rparr>,
           \<lparr>field = hf_mqtt_conackflag_reserved, start = 1 + n, octets = [rest ! n],
            uint_value = None\<rparr>,
           \<lparr>field = hf_mqtt_conackflag_sp, start = 1 + n, octets = [rest ! n],
            uint_value = None\<rparr>,
           \<lparr>field = hf_mqtt_conack_code, start = 2 + n, octets = [rest ! (n + 1)],
            uint_value = None\<rparr>]"
    if len: "dissect_uleb128 (b # rest) 1 = Inr (n, v)" and two: "n + 2 \<le> length rest"
  proof -
    from two have "1 + n + 2 \<le> length (b # rest)" by simp
    from dissect_connack_eq [OF this]
    show ?thesis
      using t
      by (simp add: dissect_mqtt_unfold [OF len] dissect_switch_def msg_type_defs
          fixed_hdr_state_def fixed_hdr_items_def plain [unfolded t msg_type_defs])
  qed
  from indep expl show ?thesis by (simp add: mask_defs)
qed

text \<open>A CONNACK with session present, without conversation data and on a v3.1
  conversation.\<close>

theorem connack_ignores_version_witness:
  "drop_bit 4 (0x20 :: u8) = MQTT_CONNACK \<and>
   dissect_uleb128 [0x20, 0x02, 0x01, 0x00] 1 = Inr (1, 2) \<and>
   fst (dissect_mqtt [0x20, 0x02, 0x01, 0x00] None) =
     fst (dissect_mqtt [0x20, 0x02, 0x01, 0x00] (Some \<lparr>runtime_proto_version = 3\<rparr>)) \<and>
   tree (snd (dissect_mqtt [0x20, 0x02, 0x01, 0x00] None)) =
     tree (snd (dissect_mqtt [0x20, 0x02, 0x01, 0x00] (Some \<lparr>runtime_proto_version = 3\<rparr>))) \<and>
   fst (dissect_mqtt [0x20, 0x02, 0x01, 0x00] None) = Inr (length [0x20, 0x02, 0x01, 0x00 :: u8])"
proof -
  have t: "drop_bit 4 (0x20 :: u8) = MQTT_CONNACK"
    by (simp add: MQTT_CONNACK_def drop_bit_eq_div)
  have len: "dissect_uleb128 [0x20, 0x02, 0x01, 0x00] 1 = Inr (1, 2)"
    by (simp add: dissect_uleb128_def)
  have two: "(1::nat) + 2 \<le> length [0x02, 0x01, 0x00 :: u8]"
    by simp
  note th = connack_ignores_version [OF t, where rest = "[0x02, 0x01, 0x00]" and data = None
      and data' = "Some \<lparr>runtime_proto_version = 3\<rparr>" and n = 1 and v = 2]
  from th have i1: "fst (dissect_mqtt [0x20, 0x02, 0x01, 0x00] None) =
     fst (dissect_mqtt [0x20, 0x02, 0x01, 0x00] (Some \<lparr>runtime_proto_version = 3\<rparr>))"
    by blast
  from th have i2: "tree (snd (dissect_mqtt [0x20, 0x02, 0x01, 0x00] None)) =
     tree (snd (dissect_mqtt [0x20, 0x02, 0x01, 0x00] (Some \<lparr>runtime_proto_version = 3\<rparr>)))"
    by blast
  from th len two have i3: "fst (dissect_mqtt [0x20, 0x02, 0x01, 0x00] None) =
     Inr (length [0x20, 0x02, 0x01, 0x00 :: u8])"
    by blast
  from t len i1 i2 i3 show ?thesis by (intro conjI)
qed

subsection \<open>PUBLISH and frames that end too early\<close>

lemma tvb_get_ntohs_eq:
  "tvb_get_ntohs tvb offset = (if offset + 2 \<le> length tvb then Inr (be16 tvb offset) else Inl TruncatedFrame)"
  by (simp add: tvb_get_ntohs_def be16_def)

lemma proto_tree_add_item_eq:
  "proto_tree_add_item h tvb offset (int n) s =
     (if offset + n \<le> length tvb
      then (Inr (), s\<lparr>tree := tree s @ [span_item h tvb offset n]\<rparr>)
      else (Inl TruncatedFrame, s))"
  by (simp add: proto_tree_add_item_def span_item_def)

lemma proto_tree_add_item_eq2:
  "proto_tree_add_item h tvb offset 2 s =
     (if offset + 2 \<le> length tvb
      then (Inr (), s\<lparr>tree := tree s @ [span_item h tvb offset 2]\<rparr>)
      else (Inl TruncatedFrame, s))"
  using proto_tree_add_item_eq [of h tvb offset 2 s] by simp

lemma proto_tree_add_item_eq1:
  "proto_tree_add_item h tvb offset 1 s =
     (if offset + 1 \<le> length tvb
      then (Inr (), s\<lparr>tree := tree s @ [span_item h tvb offset 1]\<rparr>)
      else (Inl TruncatedFrame, s))"
  using proto_tree_add_item_eq [of h tvb offset 1 s] by simp

lemma dissect_publish_fits:
  assumes complete: "int (length tvb) = int offset + len"
    and fits: "2 + int (be16 tvb offset) + (if b AND MQTT_MASK_QOS \<noteq> 0 then 2 else 0) \<le> len"
  shows "dissect_publish tvb offset b len s =
     (Inr (), s\<lparr>tree := tree s @ publish_items tvb offset b\<rparr>)"
proof -
  from complete fits have l2: "offset + 2 \<le> length tvb" by (simp split: if_splits)
  from complete fits have lt: "offset + 2 + be16 tvb offset \<le> length tvb"
    by (simp split: if_splits)
  show ?thesis
  proof (cases "b AND MQTT_MASK_QOS \<noteq> 0")
    case True
    with complete fits have lm: "offset + 2 + be16 tvb offset + 2 \<le> length tvb" by simp
    from complete lm have pay: "len - 2 - int (be16 tvb offset) - 2 =
        int (length tvb - (offset + 2 + be16 tvb offset + 2))" by simp
    have last: "proto_tree_add_item hf_mqtt_pubmsg tvb (offset + 2 + be16 tvb offset + 2)
        (len - 2 - int (be16 tvb offset) - 2) s' =
        (Inr (), s'\<lparr>tree := tree s' @ [span_item hf_mqtt_pubmsg tvb
           (offset + 2 + be16 tvb offset + 2)
           (length tvb - (offset + 2 + be16 tvb offset + 2))]\<rparr>)" for s'
      unfolding pay proto_tree_add_item_eq using lm by simp
    from True l2 lt lm show ?thesis
      unfolding dissect_publish_def Let_def
      by (simp add: seq_def lift_def ret_def tvb_get_ntohs_eq proto_tree_add_item_eq2
          proto_tree_add_item_eq publish_items_def Let_def last [simplified])
  next
    case False
    from complete lt have pay: "len - 2 - int (be16 tvb offset) =
        int (length tvb - (offset + 2 + be16 tvb offset))" by simp
    have last: "proto_tree_add_item hf_mqtt_pubmsg tvb (offset + 2 + be16 tvb offset)
        (len - 2 - int (be16 tvb offset)) s' =
        (Inr (), s'\<lparr>tree := tree s' @ [span_item hf_mqtt_pubmsg tvb
           (offset + 2 + be16 tvb offset)
           (length tvb - (offset + 2 + be16 tvb offset))]\<rparr>)" for s'
      unfolding pay proto_tree_add_item_eq using lt by simp
    from False l2 lt show ?thesis
      unfolding dissect_publish_def Let_def
      by (simp add: seq_def lift_def ret_def tvb_get_ntohs_eq proto_tree_add_item_eq2
          proto_tree_add_item_eq publish_items_def Let_def last [simplified])
  qed
qed




lemma dissect_mqtt_fst:
  assumes len: "dissect_uleb128 (b # rest) 1 = Inr (n, v)"
  shows "fst (dissect_mqtt (b # rest) data) =
     (case fst (dissect_switch (b # rest) (1 + n) b (drop_bit 4 b) (int v)
                  (fixed_hdr_state data b rest n v)) of
        Inl e \<Rightarrow> Inl e | Inr _ \<Rightarrow> Inr (Suc (length rest)))"
  by (simp add: dissect_mqtt_unfold [OF len] split: prod.splits sum.splits)

text \<open>Claim C6. A complete PUBLISH frame whose topic, and message identifier when the QoS bits
  of the fixed header are not 0, fit into the remaining length decodes to the fixed header's
  entries followed by the topic length, the topic, the message identifier exactly when the
  QoS bits are not 0, and the message; the message is the rest of the frame, so its length is
  the remaining length less 2, less the topic length, less 2 more when QoS is not 0.\<close>

theorem publish_layout:
  assumes t: "drop_bit 4 b = MQTT_PUBLISH"
    and len: "dissect_uleb128 (b # rest) 1 = Inr (n, v)"
    and complete: "length rest = n + v"
    and fits: "2 + be16 (b # rest) (1 + n) + (if b AND MQTT_MASK_QOS \<noteq> 0 then 2 else 0) \<le> v"
  shows "fst (dissect_mqtt (b # rest) data) = Inr (length (b # rest)) \<and>
     tree (snd (dissect_mqtt (b # rest) data)) =
       fixed_hdr_items b rest n v (runtime_proto_version (conv_get_or_new data)) @
       publish_items (b # rest) (1 + n) b \<and>
     (hf_mqtt_msgid \<in> field ` set (tree (snd (dissect_mqtt (b # rest) data))) \<longleftrightarrow>
        b AND MQTT_MASK_QOS \<noteq> 0) \<and>
     length (octets (last (publish_items (b # rest) (1 + n) b))) + 2 +
       be16 (b # rest) (1 + n) + (if b AND MQTT_MASK_QOS \<noteq> 0 then 2 else 0) = v"
proof -
  from complete have c: "int (length (b # rest)) = int (1 + n) + int v" by simp
  from fits have f: "2 + int (be16 (b # rest) (1 + n)) +
      (if b AND MQTT_MASK_QOS \<noteq> 0 then 2 else 0) \<le> int v" by (simp split: if_splits)
  note pub = dissect_publish_fits [OF c f]
  have sw: "dissect_switch (b # rest) (1 + n) b (drop_bit 4 b) (int v) =
      dissect_publish (b # rest) (1 + n) b (int v)"
    unfolding t by (simp add: dissect_switch_def msg_type_defs)
  have run: "dissect_mqtt (b # rest) data =
      (Inr (Suc (length rest)), (fixed_hdr_state data b rest n v)\<lparr>tree :=
         tree (fixed_hdr_state data b rest n v) @ publish_items (b # rest) (1 + n) b\<rparr>)"
    unfolding dissect_mqtt_unfold [OF len] sw pub by simp
  have "length (octets (last (publish_items (b # rest) (1 + n) b))) =
      length (b # rest) - (1 + n + 2 + be16 (b # rest) (1 + n) +
        (if b AND MQTT_MASK_QOS \<noteq> 0 then 2 else 0))"
    by (simp add: publish_items_def span_item_def Let_def)
  with complete fits have "length (octets (last (publish_items (b # rest) (1 + n) b))) + 2 +
       be16 (b # rest) (1 + n) + (if b AND MQTT_MASK_QOS \<noteq> 0 then 2 else 0) = v"
    by (simp split: if_splits)
  moreover have "hf_mqtt_msgid \<notin> field ` set
      (fixed_hdr_items b rest n v (runtime_proto_version (conv_get_or_new data)))"
    using fixed_hdr_items_fields [of b rest n v "runtime_proto_version (conv_get_or_new data)"]
    by (auto simp: hdr_fields_def flag_fields_def)
  moreover have "hf_mqtt_msgid \<in> field ` set (publish_items (b # rest) (1 + n) b) \<longleftrightarrow>
      b AND MQTT_MASK_QOS \<noteq> 0"
    by (auto simp: publish_items_def span_item_def Let_def)
  ultimately show ?thesis using run by (simp add: fixed_hdr_state_def image_Un)
qed

text \<open>A QoS 1 PUBLISH of remaining length 7: topic \<open>t\<close>, message identifier 10, message
  \<open>hi\<close>.\<close>

theorem publish_layout_witness:
  "drop_bit 4 (0x32 :: u8) = MQTT_PUBLISH \<and>
   dissect_uleb128 (0x32 # [0x07, 0x00, 0x01, 0x74, 0x00, 0x0A, 0x68, 0x69]) 1 = Inr (1, 7) \<and>
   length ([0x07, 0x00, 0x01, 0x74, 0x00, 0x0A, 0x68, 0x69] :: u8 list) = 1 + 7 \<and>
   2 + be16 (0x32 # [0x07, 0x00, 0x01, 0x74, 0x00, 0x0A, 0x68, 0x69]) (1 + 1) + (if (0x32 :: u8) AND MQTT_MASK_QOS \<noteq> 0 then 2 else 0) \<le> 7 \<and>
   fst (dissect_mqtt (0x32 # [0x07, 0x00, 0x01, 0x74, 0x00, 0x0A, 0x68, 0x69]) None) = Inr (length (0x32 # [0x07, 0x00, 0x01, 0x74, 0x00, 0x0A, 0x68, 0x69] :: u8 list)) \<and>
   tree (snd (dissect_mqtt (0x32 # [0x07, 0x00, 0x01, 0x74, 0x00, 0x0A, 0x68, 0x69]) None)) =
     fixed_hdr_items 0x32 [0x07, 0x00, 0x01, 0x74, 0x00, 0x0A, 0x68, 0x69] 1 7 (runtime_proto_version (conv_get_or_new None)) @
     publish_items (0x32 # [0x07, 0x00, 0x01, 0x74, 0x00, 0x0A, 0x68, 0x69]) (1 + 1) 0x32 \<and>
   length (octets (last (publish_items (0x32 # [0x07, 0x00, 0x01, 0x74, 0x00, 0x0A, 0x68, 0x69]) (1 + 1) 0x32))) + 2 +
     be16 (0x32 # [0x07, 0x00, 0x01, 0x74, 0x00, 0x0A, 0x68, 0x69]) (1 + 1) + (if (0x32 :: u8) AND MQTT_MASK_QOS \<noteq> 0 then 2 else 0) = 7"
proof -
  have t: "drop_bit 4 (0x32 :: u8) = MQTT_PUBLISH"
    by (simp add: MQTT_PUBLISH_def drop_bit_eq_div)
  have len: "dissect_uleb128 (0x32 # [0x07, 0x00, 0x01, 0x74, 0x00, 0x0A, 0x68, 0x69]) 1 = Inr (1, 7)"
    by (simp add: dissect_uleb128_def)
  have complete: "length ([0x07, 0x00, 0x01, 0x74, 0x00, 0x0A, 0x68, 0x69] :: u8 list) = 1 + 7"
    by simp
  have fits: "2 + be16 (0x32 # [0x07, 0x00, 0x01, 0x74, 0x00, 0x0A, 0x68, 0x69]) (1 + 1) +
      (if (0x32 :: u8) AND MQTT_MASK_QOS \<noteq> 0 then 2 else 0) \<le> 7"
    by (simp add: be16_def MQTT_MASK_QOS_def)
  from publish_layout [OF t len complete fits, of None] t len complete fits
  show ?thesis by blast
qed

subsection \<open>The repeated entries\<close>

lemma subscribe_entry_eq:
  "subscribe_entry tvb offset len s =
     (if offset + 2 + be16 tvb offset + 1 \<le> length tvb
      then (Inr (offset + 2 + be16 tvb offset + 1, len - 2 - int (be16 tvb offset) - 1),
            s\<lparr>tree := tree s @ [span_item hf_mqtt_topic_len tvb offset 2,
               span_item hf_mqtt_topic tvb (offset + 2) (be16 tvb offset),
               span_item hf_mqtt_sub_qos tvb (offset + 2 + be16 tvb offset) 1]\<rparr>)
      else (Inl TruncatedFrame,
            s\<lparr>tree := tree s @
               (if offset + 2 \<le> length tvb then [span_item hf_mqtt_topic_len tvb offset 2] else []) @
               (if offset + 2 + be16 tvb offset \<le> length tvb
                then [span_item hf_mqtt_topic tvb (offset + 2) (be16 tvb offset)] else [])\<rparr>))"
  unfolding subscribe_entry_def Let_def
  by (simp add: seq_def lift_def ret_def tvb_get_ntohs_eq proto_tree_add_item_eq2
      proto_tree_add_item_eq1 proto_tree_add_item_eq)

lemma unsubscribe_entry_eq:
  "unsubscribe_entry tvb offset len s =
     (if offset + 2 + be16 tvb offset \<le> length tvb
      then (Inr (offset + 2 + be16 tvb offset, len - 2 - int (be16 tvb offset)),
            s\<lparr>tree := tree s @ [span_item hf_mqtt_topic_len tvb offset 2,
               span_item hf_mqtt_topic tvb (offset + 2) (be16 tvb offset)]\<rparr>)
      else (Inl TruncatedFrame,
            s\<lparr>tree := tree s @
               (if offset + 2 \<le> length tvb then [span_item hf_mqtt_topic_len tvb offset 2] else [])\<rparr>))"
  unfolding unsubscribe_entry_def Let_def
  by (simp add: seq_def lift_def ret_def tvb_get_ntohs_eq proto_tree_add_item_eq2
      proto_tree_add_item_eq)

lemma suback_entry_eq:
  "suback_entry tvb offset len s =
     (if offset + 1 \<le> length tvb
      then (Inr (offset + 1, len - 1),
            s\<lparr>tree := tree s @ [span_item hf_mqtt_suback_qos tvb offset 1]\<rparr>)
      else (Inl TruncatedFrame, s))"
  unfolding suback_entry_def
  by (simp add: seq_def ret_def proto_tree_add_item_eq1)

lemma subscribe_entry_less:
  "subscribe_entry tvb offset len s = (Inr (offset', len'), s') \<Longrightarrow> len' \<le> len - 3"
  by (simp add: subscribe_entry_eq split: if_splits)

lemma unsubscribe_entry_less:
  "unsubscribe_entry tvb offset len s = (Inr (offset', len'), s') \<Longrightarrow> len' \<le> len - 2"
  by (simp add: unsubscribe_entry_eq split: if_splits)

lemma suback_entry_less:
  "suback_entry tvb offset len s = (Inr (offset', len'), s') \<Longrightarrow> len' = len - 1"
  by (simp add: suback_entry_eq split: if_splits)

lemma iterate_entries_stop:
  "\<not> 0 < len \<Longrightarrow> iterate_entries k entry offset len s = Some (Inr offset, s)"
  by (cases k) simp_all

lemma iterate_entries_fail:
  "0 < len \<Longrightarrow> entry offset len s = (Inl e, s') \<Longrightarrow> nat len \<le> k \<Longrightarrow>
     iterate_entries k entry offset len s = Some (Inl e, s')"
  by (cases k) simp_all

lemma iterate_entries_step:
  "0 < len \<Longrightarrow> entry offset len s = (Inr (offset', len'), s') \<Longrightarrow> nat len \<le> k \<Longrightarrow>
     iterate_entries k entry offset len s = iterate_entries (k - 1) entry offset' len' s'"
  by (cases k) simp_all

lemma subscribe_loop_bounded:
  "\<forall>k. nat len \<le> k \<longrightarrow>
     iterate_entries k (subscribe_entry tvb) offset len s = Some (subscribe_loop tvb offset len s)"
proof (induction tvb offset len s rule: subscribe_loop_rel_induct)
  case (stop tvb offset len s)
  then show ?case by (simp add: iterate_entries_stop)
next
  case (fail tvb offset len s e s')
  then show ?case by (simp add: iterate_entries_fail)
next
  case (step tvb offset len s offset' len' s')
  from subscribe_entry_less [OF step(2)] have "len' < len" by simp
  with step(1) have "nat len \<le> k \<Longrightarrow> nat len' \<le> k - 1" for k by arith
  with step show ?case by (simp add: iterate_entries_step)
qed

lemma unsubscribe_loop_bounded:
  "\<forall>k. nat len \<le> k \<longrightarrow>
     iterate_entries k (unsubscribe_entry tvb) offset len s = Some (unsubscribe_loop tvb offset len s)"
proof (induction tvb offset len s rule: unsubscribe_loop_rel_induct)
  case (stop tvb offset len s)
  then show ?case by (simp add: iterate_entries_stop)
next
  case (fail tvb offset len s e s')
  then show ?case by (simp add: iterate_entries_fail)
next
  case (step tvb offset len s offset' len' s')
  from unsubscribe_entry_less [OF step(2)] have "len' < len" by simp
  with step(1) have "nat len \<le> k \<Longrightarrow> nat len' \<le> k - 1" for k by arith
  with step show ?case by (simp add: iterate_entries_step)
qed

lemma suback_loop_bounded:
  "\<forall>k. nat len \<le> k \<longrightarrow>
     iterate_entries k (suback_entry tvb) offset len s = Some (suback_loop tvb offset len s)"
proof (induction tvb offset len s rule: suback_loop_rel_induct)
  case (stop tvb offset len s)
  then show ?case by (simp add: iterate_entries_stop)
next
  case (fail tvb offset len s e s')
  then show ?case by (simp add: iterate_entries_fail)
next
  case (step tvb offset len s offset' len' s')
  from suback_entry_less [OF step(2)] have "len' < len" by simp
  with step(1) have "nat len \<le> k \<Longrightarrow> nat len' \<le> k - 1" for k by arith
  with step show ?case by (simp add: iterate_entries_step)
qed

text \<open>Claim C9. A pass that does not throw lowers the counter by at least 3 in the SUBSCRIBE
  loop, by at least 2 in the UNSUBSCRIBE loop and by exactly 1 in the SUBACK loop. Each loop
  returns at once when the counter is not positive. From any tvbuff, offset, counter and
  state each loop is through after at most as many passes as the counter says: run with
  that bound or a larger one, the scheme yields the loop's result.\<close>

theorem entry_loops_terminate:
  "(subscribe_entry tvb offset len s = (Inr (offset', len'), s') \<longrightarrow> len' \<le> len - 3) \<and>
   (unsubscribe_entry tvb offset len s = (Inr (offset', len'), s') \<longrightarrow> len' \<le> len - 2) \<and>
   (suback_entry tvb offset len s = (Inr (offset', len'), s') \<longrightarrow> len' = len - 1) \<and>
   (\<not> 0 < len \<longrightarrow>
      subscribe_loop tvb offset len s = (Inr offset, s) \<and>
      unsubscribe_loop tvb offset len s = (Inr offset, s) \<and>
      suback_loop tvb offset len s = (Inr offset, s)) \<and>
   (nat len \<le> k \<longrightarrow>
      iterate_entries k (subscribe_entry tvb) offset len s =
        Some (subscribe_loop tvb offset len s) \<and>
      iterate_entries k (unsubscribe_entry tvb) offset len s =
        Some (unsubscribe_loop tvb offset len s) \<and>
      iterate_entries k (suback_entry tvb) offset len s =
        Some (suback_loop tvb offset len s))"
  using subscribe_entry_less [of tvb offset len s offset' len' s']
    unsubscribe_entry_less [of tvb offset len s offset' len' s']
    suback_entry_less [of tvb offset len s offset' len' s']
    subscribe_loop_bounded [of len tvb offset s] unsubscribe_loop_bounded [of len tvb offset s]
    suback_loop_bounded [of len tvb offset s]
  by simp

text \<open>One entry with topic \<open>a\<close>, read by each of the three loop bodies with the counter at
  4.\<close>

theorem entry_loops_terminate_witness:
  "subscribe_entry [0x00, 0x01, 0x61, 0x00] 0 4 \<lparr>conv = \<lparr>runtime_proto_version = 0\<rparr>, tree = []\<rparr> = (Inr (4, 0), \<lparr>conv = \<lparr>runtime_proto_version = 0\<rparr>, tree = [span_item hf_mqtt_topic_len [0x00, 0x01, 0x61, 0x00] 0 2, span_item hf_mqtt_topic [0x00, 0x01, 0x61, 0x00] 2 1, span_item hf_mqtt_sub_qos [0x00, 0x01, 0x61, 0x00] 3 1]\<rparr>) \<and> (0::int) \<le> 4 - 3 \<and>
   unsubscribe_entry [0x00, 0x01, 0x61, 0x00] 0 4 \<lparr>conv = \<lparr>runtime_proto_version = 0\<rparr>, tree = []\<rparr> = (Inr (3, 1), \<lparr>conv = \<lparr>runtime_proto_version = 0\<rparr>, tree = [span_item hf_mqtt_topic_len [0x00, 0x01, 0x61, 0x00] 0 2, span_item hf_mqtt_topic [0x00, 0x01, 0x61, 0x00] 2 1]\<rparr>) \<and> (1::int) \<le> 4 - 2 \<and>
   suback_entry [0x00, 0x01, 0x61, 0x00] 0 4 \<lparr>conv = \<lparr>runtime_proto_version = 0\<rparr>, tree = []\<rparr> = (Inr (1, 3), \<lparr>conv = \<lparr>runtime_proto_version = 0\<rparr>, tree = [span_item hf_mqtt_suback_qos [0x00, 0x01, 0x61, 0x00] 0 1]\<rparr>) \<and> (3::int) = 4 - 1 \<and>
   \<not> (0::int) < 0 \<and> subscribe_loop [0x00, 0x01, 0x61, 0x00] 4 0 \<lparr>conv = \<lparr>runtime_proto_version = 0\<rparr>, tree = []\<rparr> = (Inr 4, \<lparr>conv = \<lparr>runtime_proto_version = 0\<rparr>, tree = []\<rparr>) \<and>
   nat 4 \<le> (4::nat) \<and>
   iterate_entries 4 (subscribe_entry [0x00, 0x01, 0x61, 0x00]) 0 4 \<lparr>conv = \<lparr>runtime_proto_version = 0\<rparr>, tree = []\<rparr> = Some (subscribe_loop [0x00, 0x01, 0x61, 0x00] 0 4 \<lparr>conv = \<lparr>runtime_proto_version = 0\<rparr>, tree = []\<rparr>)"
proof -
  have h1: "subscribe_entry [0x00, 0x01, 0x61, 0x00] 0 4 \<lparr>conv = \<lparr>runtime_proto_version = 0\<rparr>, tree = []\<rparr> = (Inr (4, 0), \<lparr>conv = \<lparr>runtime_proto_version = 0\<rparr>, tree = [span_item hf_mqtt_topic_len [0x00, 0x01, 0x61, 0x00] 0 2, span_item hf_mqtt_topic [0x00, 0x01, 0x61, 0x00] 2 1, span_item hf_mqtt_sub_qos [0x00, 0x01, 0x61, 0x00] 3 1]\<rparr>)"
    by (simp add: subscribe_entry_eq be16_def numeral_2_eq_2 numeral_3_eq_3)
  have h2: "unsubscribe_entry [0x00, 0x01, 0x61, 0x00] 0 4 \<lparr>conv = \<lparr>runtime_proto_version = 0\<rparr>, tree = []\<rparr> = (Inr (3, 1), \<lparr>conv = \<lparr>runtime_proto_version = 0\<rparr>, tree = [span_item hf_mqtt_topic_len [0x00, 0x01, 0x61, 0x00] 0 2, span_item hf_mqtt_topic [0x00, 0x01, 0x61, 0x00] 2 1]\<rparr>)"
    by (simp add: unsubscribe_entry_eq be16_def numeral_2_eq_2 numeral_3_eq_3)
  have h3: "suback_entry [0x00, 0x01, 0x61, 0x00] 0 4 \<lparr>conv = \<lparr>runtime_proto_version = 0\<rparr>, tree = []\<rparr> = (Inr (1, 3), \<lparr>conv = \<lparr>runtime_proto_version = 0\<rparr>, tree = [span_item hf_mqtt_suback_qos [0x00, 0x01, 0x61, 0x00] 0 1]\<rparr>)"
    by (simp add: suback_entry_eq)
  have h4: "\<not> (0::int) < 0" by simp
  have h5: "nat 4 \<le> (4::nat)" by simp
  from h1 entry_loops_terminate [where tvb = "[0x00, 0x01, 0x61, 0x00]" and offset = 0 and len = 4 and s = "\<lparr>conv = \<lparr>runtime_proto_version = 0\<rparr>, tree = []\<rparr>"
      and offset' = 4 and len' = 0 and s' = "\<lparr>conv = \<lparr>runtime_proto_version = 0\<rparr>, tree = [span_item hf_mqtt_topic_len [0x00, 0x01, 0x61, 0x00] 0 2, span_item hf_mqtt_topic [0x00, 0x01, 0x61, 0x00] 2 1, span_item hf_mqtt_sub_qos [0x00, 0x01, 0x61, 0x00] 3 1]\<rparr>"]
  have c1: "(0::int) \<le> 4 - 3" by blast
  from h2 entry_loops_terminate [where tvb = "[0x00, 0x01, 0x61, 0x00]" and offset = 0 and len = 4 and s = "\<lparr>conv = \<lparr>runtime_proto_version = 0\<rparr>, tree = []\<rparr>"
      and offset' = 3 and len' = 1 and s' = "\<lparr>conv = \<lparr>runtime_proto_version = 0\<rparr>, tree = [span_item hf_mqtt_topic_len [0x00, 0x01, 0x61, 0x00] 0 2, span_item hf_mqtt_topic [0x00, 0x01, 0x61, 0x00] 2 1]\<rparr>"]
  have c2: "(1::int) \<le> 4 - 2" by blast
  from h3 entry_loops_terminate [where tvb = "[0x00, 0x01, 0x61, 0x00]" and offset = 0 and len = 4 and s = "\<lparr>conv = \<lparr>runtime_proto_version = 0\<rparr>, tree = []\<rparr>"
      and offset' = 1 and len' = 3 and s' = "\<lparr>conv = \<lparr>runtime_proto_version = 0\<rparr>, tree = [span_item hf_mqtt_suback_qos [0x00, 0x01, 0x61, 0x00] 0 1]\<rparr>"]
  have c3: "(3::int) = 4 - 1" by blast
  from h4 entry_loops_terminate [where tvb = "[0x00, 0x01, 0x61, 0x00]" and offset = 4 and len = 0 and s = "\<lparr>conv = \<lparr>runtime_proto_version = 0\<rparr>, tree = []\<rparr>"]
  have c4: "subscribe_loop [0x00, 0x01, 0x61, 0x00] 4 0 \<lparr>conv = \<lparr>runtime_proto_version = 0\<rparr>, tree = []\<rparr> = (Inr 4, \<lparr>conv = \<lparr>runtime_proto_version = 0\<rparr>, tree = []\<rparr>)" by blast
  from h5 entry_loops_terminate [where tvb = "[0x00, 0x01, 0x61, 0x00]" and offset = 0 and len = 4 and s = "\<lparr>conv = \<lparr>runtime_proto_version = 0\<rparr>, tree = []\<rparr>"
      and k = 4]
  have c5: "iterate_entries 4 (subscribe_entry [0x00, 0x01, 0x61, 0x00]) 0 4 \<lparr>conv = \<lparr>runtime_proto_version = 0\<rparr>, tree = []\<rparr> = Some (subscribe_loop [0x00, 0x01, 0x61, 0x00] 0 4 \<lparr>conv = \<lparr>runtime_proto_version = 0\<rparr>, tree = []\<rparr>)"
    by blast
  from h1 c1 h2 c2 h3 c3 h4 c4 h5 c5 show ?thesis by (intro conjI)
qed

subsection \<open>Regions of repeated entries\<close>

lemma whole_entries_drop:
  assumes "offset < length tvb"
  shows "whole_entries extra (drop offset tvb) =
     (offset + 2 + be16 tvb offset + extra \<le> length tvb \<and>
      whole_entries extra (drop (offset + 2 + be16 tvb offset + extra) tvb))"
proof (cases "offset + 2 \<le> length tvb")
  case False
  with assms have "Suc offset = length tvb" by simp
  with assms have "drop offset tvb = [tvb ! offset]"
    by (metis Cons_nth_drop_Suc drop_all le_refl)
  with False show ?thesis by simp
next
  case True
  then have 1: "drop offset tvb = tvb ! offset # drop (Suc offset) tvb"
    by (simp add: Cons_nth_drop_Suc)
  from True have 2: "drop (Suc offset) tvb = tvb ! (Suc offset) # drop (Suc (Suc offset)) tvb"
    by (simp add: Cons_nth_drop_Suc)
  from True show ?thesis
    by (simp add: 1 2 be16_def Let_def add.commute add.left_commute) (auto simp: add_ac)
qed

lemma subscribe_loop_whole:
  "int (length tvb) = int offset + len \<longrightarrow> 0 \<le> len \<longrightarrow>
     fst (subscribe_loop tvb offset len s) =
       (if whole_entries 1 (drop offset tvb) then Inr (length tvb) else Inl TruncatedFrame)"
proof (induction tvb offset len s rule: subscribe_loop_rel_induct)
  case (stop tvb offset len s)
  then show ?case by auto
next
  case (fail tvb offset len s e s')
  show ?case
  proof (intro impI)
    assume c: "int (length tvb) = int offset + len" and "0 \<le> len"
    with fail(1) have lt: "offset < length tvb" by simp
    from fail(2) show "fst (Inl e :: error + nat, s') =
        (if whole_entries 1 (drop offset tvb) then Inr (length tvb) else Inl TruncatedFrame)"
      by (simp add: subscribe_entry_eq whole_entries_drop [OF lt] split: if_splits)
  qed
next
  case (step tvb offset len s offset' len' s')
  show ?case
  proof (intro impI)
    assume c: "int (length tvb) = int offset + len" and "0 \<le> len"
    with step(1) have lt: "offset < length tvb" by simp
    from step(2) have o': "offset' = offset + 2 + be16 tvb offset + 1"
      and l': "len' = len - 2 - int (be16 tvb offset) - 1"
      and fit: "offset + 2 + be16 tvb offset + 1 \<le> length tvb"
      by (simp_all add: subscribe_entry_eq split: if_splits)
    from c o' l' fit have "int (length tvb) = int offset' + len'" "0 \<le> len'" by simp_all
    with step(3) have "fst (subscribe_loop tvb offset' len' s') =
        (if whole_entries 1 (drop offset' tvb) then Inr (length tvb) else Inl TruncatedFrame)"
      by simp
    with fit show "fst (subscribe_loop tvb offset' len' s') =
        (if whole_entries 1 (drop offset tvb) then Inr (length tvb) else Inl TruncatedFrame)"
      by (simp add: whole_entries_drop [OF lt] o')
  qed
qed

lemma unsubscribe_loop_whole:
  "int (length tvb) = int offset + len \<longrightarrow> 0 \<le> len \<longrightarrow>
     fst (unsubscribe_loop tvb offset len s) =
       (if whole_entries 0 (drop offset tvb) then Inr (length tvb) else Inl TruncatedFrame)"
proof (induction tvb offset len s rule: unsubscribe_loop_rel_induct)
  case (stop tvb offset len s)
  then show ?case by auto
next
  case (fail tvb offset len s e s')
  show ?case
  proof (intro impI)
    assume c: "int (length tvb) = int offset + len" and "0 \<le> len"
    with fail(1) have lt: "offset < length tvb" by simp
    from fail(2) show "fst (Inl e :: error + nat, s') =
        (if whole_entries 0 (drop offset tvb) then Inr (length tvb) else Inl TruncatedFrame)"
      by (simp add: unsubscribe_entry_eq whole_entries_drop [OF lt] split: if_splits)
  qed
next
  case (step tvb offset len s offset' len' s')
  show ?case
  proof (intro impI)
    assume c: "int (length tvb) = int offset + len" and "0 \<le> len"
    with step(1) have lt: "offset < length tvb" by simp
    from step(2) have o': "offset' = offset + 2 + be16 tvb offset"
      and l': "len' = len - 2 - int (be16 tvb offset)"
      and fit: "offset + 2 + be16 tvb offset \<le> length tvb"
      by (simp_all add: unsubscribe_entry_eq split: if_splits)
    from c o' l' fit have "int (length tvb) = int offset' + len'" "0 \<le> len'" by simp_all
    with step(3) have "fst (unsubscribe_loop tvb offset' len' s') =
        (if whole_entries 0 (drop offset' tvb) then Inr (length tvb) else Inl TruncatedFrame)"
      by simp
    with fit show "fst (unsubscribe_loop tvb offset' len' s') =
        (if whole_entries 0 (drop offset tvb) then Inr (length tvb) else Inl TruncatedFrame)"
      by (simp add: whole_entries_drop [OF lt] o')
  qed
qed

lemma suback_loop_all:
  "int (length tvb) = int offset + len \<longrightarrow> 0 \<le> len \<longrightarrow>
     suback_loop tvb offset len s =
       (Inr (length tvb), s\<lparr>tree := tree s @
          map (\<lambda>k. span_item hf_mqtt_suback_qos tvb k 1) [offset ..< length tvb]\<rparr>)"
proof (induction tvb offset len s rule: suback_loop_rel_induct)
  case (stop tvb offset len s)
  then show ?case by auto
next
  case (fail tvb offset len s e s')
  then show ?case by (auto simp: suback_entry_eq split: if_splits)
next
  case (step tvb offset len s offset' len' s')
  show ?case
  proof (intro impI)
    assume c: "int (length tvb) = int offset + len" and "0 \<le> len"
    with step(1) have lt: "offset < length tvb" by simp
    from step(2) lt have o': "offset' = offset + 1" and l': "len' = len - 1"
      and s': "s' = s\<lparr>tree := tree s @ [span_item hf_mqtt_suback_qos tvb offset 1]\<rparr>"
      by (auto simp: suback_entry_eq split: if_splits)
    from c o' l' lt have "int (length tvb) = int offset' + len'" "0 \<le> len'" by simp_all
    with step(3) have "suback_loop tvb offset' len' s' =
       (Inr (length tvb), s'\<lparr>tree := tree s' @
          map (\<lambda>k. span_item hf_mqtt_suback_qos tvb k 1) [offset' ..< length tvb]\<rparr>)"
      by simp
    with lt show "suback_loop tvb offset' len' s' =
       (Inr (length tvb), s\<lparr>tree := tree s @
          map (\<lambda>k. span_item hf_mqtt_suback_qos tvb k 1) [offset ..< length tvb]\<rparr>)"
      by (simp add: o' s' upt_conv_Cons)
  qed
qed

lemma fst_seq_ret_unit:
  "fst (seq m (\<lambda>_. ret ()) s) = (case fst (m s) of Inl e \<Rightarrow> Inl e | Inr _ \<Rightarrow> Inr ())"
  by (cases "m s") (auto simp: seq_def ret_def split: sum.splits)

lemma dissect_subscribe_whole:
  assumes c: "int (length tvb) = int offset + len" and two: "2 \<le> len"
  shows "fst (dissect_subscribe tvb offset len s) =
     (if whole_entries 1 (drop (offset + 2) tvb) then Inr () else Inl TruncatedFrame)"
proof -
  from c two have fit: "offset + 2 \<le> length tvb" by simp
  from c two have c': "int (length tvb) = int (offset + 2) + (len - 2)" "0 \<le> len - 2"
    by simp_all
  from subscribe_loop_whole [rule_format, OF c'] fit show ?thesis
    unfolding dissect_subscribe_def Let_def
    by (simp add: seq_def [of "proto_tree_add_item hf_mqtt_msgid tvb offset 2"]
        proto_tree_add_item_eq2 fst_seq_ret_unit)
qed

lemma dissect_unsubscribe_whole:
  assumes c: "int (length tvb) = int offset + len" and two: "2 \<le> len"
  shows "fst (dissect_unsubscribe tvb offset len s) =
     (if whole_entries 0 (drop (offset + 2) tvb) then Inr () else Inl TruncatedFrame)"
proof -
  from c two have fit: "offset + 2 \<le> length tvb" by simp
  from c two have c': "int (length tvb) = int (offset + 2) + (len - 2)" "0 \<le> len - 2"
    by simp_all
  from unsubscribe_loop_whole [rule_format, OF c'] fit show ?thesis
    unfolding dissect_unsubscribe_def Let_def
    by (simp add: seq_def [of "proto_tree_add_item hf_mqtt_msgid tvb offset 2"]
        proto_tree_add_item_eq2 fst_seq_ret_unit)
qed

lemma dissect_suback_all:
  assumes c: "int (length tvb) = int offset + len" and two: "2 \<le> len"
  shows "dissect_suback tvb offset len s =
     (Inr (), s\<lparr>tree := tree s @ span_item hf_mqtt_msgid tvb offset 2 #
        map (\<lambda>k. span_item hf_mqtt_suback_qos tvb k 1) [offset + 2 ..< length tvb]\<rparr>)"
proof -
  from c two have fit: "offset + 2 \<le> length tvb" by simp
  from c two have c': "int (length tvb) = int (offset + 2) + (len - 2)" "0 \<le> len - 2"
    by simp_all
  from suback_loop_all [rule_format, OF c'] fit show ?thesis
    unfolding dissect_suback_def Let_def
    by (simp add: seq_def ret_def proto_tree_add_item_eq2)
qed

lemma dissect_mqtt_suback:
  assumes t: "drop_bit 4 b = MQTT_SUBACK"
    and len: "dissect_uleb128 (b # rest) 1 = Inr (n, v)"
    and complete: "length rest = n + v" and two: "2 \<le> v"
  shows "dissect_mqtt (b # rest) data =
     (Inr (length (b # rest)),
      \<lparr>conv = conv_get_or_new data,
       tree = fixed_hdr_items b rest n v (runtime_proto_version (conv_get_or_new data)) @
         span_item hf_mqtt_msgid (b # rest) (1 + n) 2 #
         map (\<lambda>k. span_item hf_mqtt_suback_qos (b # rest) k 1)
           [1 + n + 2 ..< length (b # rest)]\<rparr>)"
proof -
  from complete have c: "int (length (b # rest)) = int (1 + n) + int v" by simp
  from two have "2 \<le> int v" by simp
  note sub = dissect_suback_all [OF c this]
  have sw: "dissect_switch (b # rest) (1 + n) b (drop_bit 4 b) (int v) =
      dissect_suback (b # rest) (1 + n) (int v)"
    unfolding t by (simp add: dissect_switch_def msg_type_defs)
  show ?thesis
    unfolding dissect_mqtt_unfold [OF len] sw sub by (simp add: fixed_hdr_state_def)
qed

text \<open>Claim C2, as amended. A complete SUBSCRIBE or UNSUBSCRIBE frame with its message
  identifier decodes if its region of entries splits into whole entries, and fails with
  \<open>TruncatedFrame\<close>, the failure of the buffer accessors, if it does not; the loops have no
  check and no failure of their own. A complete SUBACK frame with its message identifier
  always decodes: every byte behind the identifier is one granted-QoS entry, so no entry can
  be partial.\<close>

theorem repeated_entries:
  "(drop_bit 4 b = MQTT_SUBSCRIBE \<and> dissect_uleb128 (b # rest) 1 = Inr (n, v) \<and>
    length rest = n + v \<and> 2 \<le> v \<longrightarrow>
      fst (dissect_mqtt (b # rest) data) =
        (if whole_entries 1 (drop (1 + n + 2) (b # rest)) then Inr (length (b # rest))
         else Inl TruncatedFrame)) \<and>
   (drop_bit 4 b = MQTT_UNSUBSCRIBE \<and> dissect_uleb128 (b # rest) 1 = Inr (n, v) \<and>
    length rest = n + v \<and> 2 \<le> v \<longrightarrow>
      fst (dissect_mqtt (b # rest) data) =
        (if whole_entries 0 (drop (1 + n + 2) (b # rest)) then Inr (length (b # rest))
         else Inl TruncatedFrame)) \<and>
   (drop_bit 4 b = MQTT_SUBACK \<and> dissect_uleb128 (b # rest) 1 = Inr (n, v) \<and>
    length rest = n + v \<and> 2 \<le> v \<longrightarrow>
      fst (dissect_mqtt (b # rest) data) = Inr (length (b # rest)) \<and>
      tree (snd (dissect_mqtt (b # rest) data)) =
        fixed_hdr_items b rest n v (runtime_proto_version (conv_get_or_new data)) @
        span_item hf_mqtt_msgid (b # rest) (1 + n) 2 #
        map (\<lambda>k. span_item hf_mqtt_suback_qos (b # rest) k 1)
          [1 + n + 2 ..< length (b # rest)])"
proof (intro conjI impI)
  assume a: "drop_bit 4 b = MQTT_SUBSCRIBE \<and> dissect_uleb128 (b # rest) 1 = Inr (n, v) \<and>
    length rest = n + v \<and> 2 \<le> v"
  then have t: "drop_bit 4 b = MQTT_SUBSCRIBE" and len: "dissect_uleb128 (b # rest) 1 = Inr (n, v)"
    and c: "int (length (b # rest)) = int (1 + n) + int v" and two: "2 \<le> int v" by simp_all
  have sw: "dissect_switch (b # rest) (1 + n) b (drop_bit 4 b) (int v) =
      dissect_subscribe (b # rest) (1 + n) (int v)"
    unfolding t by (simp add: dissect_switch_def msg_type_defs)
  show "fst (dissect_mqtt (b # rest) data) =
        (if whole_entries 1 (drop (1 + n + 2) (b # rest)) then Inr (length (b # rest))
         else Inl TruncatedFrame)"
    unfolding dissect_mqtt_fst [OF len] sw dissect_subscribe_whole [OF c two] by simp
next
  assume a: "drop_bit 4 b = MQTT_UNSUBSCRIBE \<and> dissect_uleb128 (b # rest) 1 = Inr (n, v) \<and>
    length rest = n + v \<and> 2 \<le> v"
  then have t: "drop_bit 4 b = MQTT_UNSUBSCRIBE"
    and len: "dissect_uleb128 (b # rest) 1 = Inr (n, v)"
    and c: "int (length (b # rest)) = int (1 + n) + int v" and two: "2 \<le> int v" by simp_all
  have sw: "dissect_switch (b # rest) (1 + n) b (drop_bit 4 b) (int v) =
      dissect_unsubscribe (b # rest) (1 + n) (int v)"
    unfolding t by (simp add: dissect_switch_def msg_type_defs)
  show "fst (dissect_mqtt (b # rest) data) =
        (if whole_entries 0 (drop (1 + n + 2) (b # rest)) then Inr (length (b # rest))
         else Inl TruncatedFrame)"
    unfolding dissect_mqtt_fst [OF len] sw dissect_unsubscribe_whole [OF c two] by simp
next
  assume a: "drop_bit 4 b = MQTT_SUBACK \<and> dissect_uleb128 (b # rest) 1 = Inr (n, v) \<and>
    length rest = n + v \<and> 2 \<le> v"
  then have "dissect_mqtt (b # rest) data =
     (Inr (length (b # rest)),
      \<lparr>conv = conv_get_or_new data,
       tree = fixed_hdr_items b rest n v (runtime_proto_version (conv_get_or_new data)) @
         span_item hf_mqtt_msgid (b # rest) (1 + n) 2 #
         map (\<lambda>k. span_item hf_mqtt_suback_qos (b # rest) k 1)
           [1 + n + 2 ..< length (b # rest)]\<rparr>)"
    by (intro dissect_mqtt_suback) simp_all
  then show "fst (dissect_mqtt (b # rest) data) = Inr (length (b # rest))"
    and "tree (snd (dissect_mqtt (b # rest) data)) =
        fixed_hdr_items b rest n v (runtime_proto_version (conv_get_or_new data)) @
        span_item hf_mqtt_msgid (b # rest) (1 + n) 2 #
        map (\<lambda>k. span_item hf_mqtt_suback_qos (b # rest) k 1)
          [1 + n + 2 ..< length (b # rest)]"
    by simp_all
qed

text \<open>Claim C2 as stated fails on the SUBACK of remaining length 3: it decodes, to the message
  identifier and one granted QoS.\<close>

theorem suback_odd_counterexample:
  "fst (dissect_mqtt [0x90, 0x03, 0x00, 0x01, 0x00] None) = Inr 5 \<and>
   map field (tree (snd (dissect_mqtt [0x90, 0x03, 0x00, 0x01, 0x00] None))) =
     [hf_mqtt_hdrflags, hf_mqtt_msg_type, hf_mqtt_reserved, hf_mqtt_msg_len, hf_mqtt_msgid,
      hf_mqtt_suback_qos]"
proof -
  have t: "drop_bit 4 (0x90 :: u8) = MQTT_SUBACK"
    by (simp add: MQTT_SUBACK_def drop_bit_eq_div)
  have len: "dissect_uleb128 [0x90, 0x03, 0x00, 0x01, 0x00] 1 = Inr (1, 3)"
    by (simp add: dissect_uleb128_def)
  have fl: "flag_layout_of 9 (Some 0) = PlainReserved"
    by (simp add: flag_layout_of_def msg_type_defs)
  have up: "[4 ..< 5] = [4::nat]"
    by (simp add: upt_rec)
  from dissect_mqtt_suback [OF t len, of None] show ?thesis
    by (simp add: fixed_hdr_items_def t fl span_item_def hdr_item_def conv_get_or_new_def up)
qed

text \<open>A SUBSCRIBE whose topic says 5 bytes with 1 left, an UNSUBSCRIBE of one whole entry,
  and the SUBACK of remaining length 3.\<close>

theorem repeated_entries_witness:
  "drop_bit 4 (0x82 :: u8) = MQTT_SUBSCRIBE \<and> dissect_uleb128 (0x82 # [0x05, 0x00, 0x01, 0x00, 0x05, 0x61]) 1 = Inr (1, 5) \<and>
   length ([0x05, 0x00, 0x01, 0x00, 0x05, 0x61] :: u8 list) = 1 + 5 \<and> (2::nat) \<le> 5 \<and>
   \<not> whole_entries 1 (drop (1 + 1 + 2) (0x82 # [0x05, 0x00, 0x01, 0x00, 0x05, 0x61])) \<and>
   fst (dissect_mqtt (0x82 # [0x05, 0x00, 0x01, 0x00, 0x05, 0x61]) None) = Inl TruncatedFrame \<and>
   drop_bit 4 (0xA2 :: u8) = MQTT_UNSUBSCRIBE \<and> dissect_uleb128 (0xA2 # [0x05, 0x00, 0x01, 0x00, 0x01, 0x61]) 1 = Inr (1, 5) \<and>
   length ([0x05, 0x00, 0x01, 0x00, 0x01, 0x61] :: u8 list) = 1 + 5 \<and>
   whole_entries 0 (drop (1 + 1 + 2) (0xA2 # [0x05, 0x00, 0x01, 0x00, 0x01, 0x61])) \<and>
   fst (dissect_mqtt (0xA2 # [0x05, 0x00, 0x01, 0x00, 0x01, 0x61]) None) = Inr (length (0xA2 # [0x05, 0x00, 0x01, 0x00, 0x01, 0x61] :: u8 list)) \<and>
   drop_bit 4 (0x90 :: u8) = MQTT_SUBACK \<and> dissect_uleb128 (0x90 # [0x03, 0x00, 0x01, 0x00]) 1 = Inr (1, 3) \<and>
   length ([0x03, 0x00, 0x01, 0x00] :: u8 list) = 1 + 3 \<and> (2::nat) \<le> 3 \<and>
   fst (dissect_mqtt (0x90 # [0x03, 0x00, 0x01, 0x00]) None) = Inr (length (0x90 # [0x03, 0x00, 0x01, 0x00] :: u8 list))"
proof -
  have t1: "drop_bit 4 (0x82 :: u8) = MQTT_SUBSCRIBE"
    by (simp add: MQTT_SUBSCRIBE_def drop_bit_eq_div)
  have l1: "dissect_uleb128 (0x82 # [0x05, 0x00, 0x01, 0x00, 0x05, 0x61]) 1 = Inr (1, 5)"
    by (simp add: dissect_uleb128_def)
  have c1: "length ([0x05, 0x00, 0x01, 0x00, 0x05, 0x61] :: u8 list) = 1 + 5" by simp
  have v1: "(2::nat) \<le> 5" by simp
  have w1: "\<not> whole_entries 1 (drop (1 + 1 + 2) (0x82 # [0x05, 0x00, 0x01, 0x00, 0x05, 0x61]))" by simp
  from t1 l1 c1 v1 repeated_entries [where b = "0x82" and rest = "[0x05, 0x00, 0x01, 0x00, 0x05, 0x61]" and n = 1 and v = 5
      and data = None]
  have "fst (dissect_mqtt (0x82 # [0x05, 0x00, 0x01, 0x00, 0x05, 0x61]) None) =
      (if whole_entries 1 (drop (1 + 1 + 2) (0x82 # [0x05, 0x00, 0x01, 0x00, 0x05, 0x61])) then Inr (length (0x82 # [0x05, 0x00, 0x01, 0x00, 0x05, 0x61] :: u8 list))
       else Inl TruncatedFrame)" by blast
  with w1 have r1: "fst (dissect_mqtt (0x82 # [0x05, 0x00, 0x01, 0x00, 0x05, 0x61]) None) = Inl TruncatedFrame"
    by (simp only: if_False)
  have t2: "drop_bit 4 (0xA2 :: u8) = MQTT_UNSUBSCRIBE"
    by (simp add: MQTT_UNSUBSCRIBE_def drop_bit_eq_div)
  have l2: "dissect_uleb128 (0xA2 # [0x05, 0x00, 0x01, 0x00, 0x01, 0x61]) 1 = Inr (1, 5)"
    by (simp add: dissect_uleb128_def)
  have c2: "length ([0x05, 0x00, 0x01, 0x00, 0x01, 0x61] :: u8 list) = 1 + 5" by simp
  have w2: "whole_entries 0 (drop (1 + 1 + 2) (0xA2 # [0x05, 0x00, 0x01, 0x00, 0x01, 0x61]))" by simp
  from t2 l2 c2 v1 repeated_entries [where b = "0xA2" and rest = "[0x05, 0x00, 0x01, 0x00, 0x01, 0x61]" and n = 1 and v = 5
      and data = None]
  have "fst (dissect_mqtt (0xA2 # [0x05, 0x00, 0x01, 0x00, 0x01, 0x61]) None) =
      (if whole_entries 0 (drop (1 + 1 + 2) (0xA2 # [0x05, 0x00, 0x01, 0x00, 0x01, 0x61])) then Inr (length (0xA2 # [0x05, 0x00, 0x01, 0x00, 0x01, 0x61] :: u8 list))
       else Inl TruncatedFrame)" by blast
  with w2 have r2: "fst (dissect_mqtt (0xA2 # [0x05, 0x00, 0x01, 0x00, 0x01, 0x61]) None) = Inr (length (0xA2 # [0x05, 0x00, 0x01, 0x00, 0x01, 0x61] :: u8 list))"
    by (simp only: if_True)
  have t3: "drop_bit 4 (0x90 :: u8) = MQTT_SUBACK"
    by (simp add: MQTT_SUBACK_def drop_bit_eq_div)
  have l3: "dissect_uleb128 (0x90 # [0x03, 0x00, 0x01, 0x00]) 1 = Inr (1, 3)"
    by (simp add: dissect_uleb128_def)
  have c3: "length ([0x03, 0x00, 0x01, 0x00] :: u8 list) = 1 + 3" by simp
  have v3: "(2::nat) \<le> 3" by simp
  from t3 l3 c3 v3 repeated_entries [where b = "0x90" and rest = "[0x03, 0x00, 0x01, 0x00]" and n = 1 and v = 3
      and data = None]
  have r3: "fst (dissect_mqtt (0x90 # [0x03, 0x00, 0x01, 0x00]) None) = Inr (length (0x90 # [0x03, 0x00, 0x01, 0x00] :: u8 list))" by blast
  from t1 l1 c1 v1 w1 r1 t2 l2 c2 w2 r2 t3 l3 c3 v3 r3 show ?thesis by (intro conjI)
qed

subsection \<open>CONNECT\<close>

lemma dissect_lenstr_eq:
  "dissect_lenstr h_len h_str tvb offset s =
     (if lenstr_end tvb offset \<le> length tvb
      then (Inr (lenstr_end tvb offset),
            s\<lparr>tree := tree s @ lenstr_items h_len h_str tvb offset\<rparr>)
      else (Inl TruncatedFrame,
            s\<lparr>tree := tree s @
               (if offset + 2 \<le> length tvb then [span_item h_len tvb offset 2] else [])\<rparr>))"
  unfolding dissect_lenstr_def Let_def
  by (simp add: seq_def lift_def ret_def tvb_get_ntohs_eq proto_tree_add_item_eq2
      proto_tree_add_item_eq lenstr_end_def lenstr_items_def)

lemma lenstr_end_ge: "offset + 2 \<le> lenstr_end tvb offset"
  by (simp add: lenstr_end_def)

lemma connect_proto_flags_eq:
  assumes fit: "connect_client_end tvb offset \<le> length tvb"
  shows "seq (connect_proto tvb offset) (connect_flags tvb) s =
     (Inr (connect_flags_at tvb offset, connect_client_end tvb offset),
      s\<lparr>conv := (conv s)\<lparr>runtime_proto_version := tvb ! connect_version_at tvb offset\<rparr>,
        tree := tree s @ connect_head_items tvb offset\<rparr>)"
proof -
  let ?v = "connect_version_at tvb offset"
  from fit lenstr_end_ge [of "?v + 4" tvb] have v: "?v + 6 \<le> length tvb"
    by (simp add: connect_client_end_def)
  then have ve: "lenstr_end tvb offset \<le> length tvb" by (simp add: connect_version_at_def)
  from fit have ce: "lenstr_end tvb (lenstr_end tvb offset + 4) \<le> length tvb"
    by (simp add: connect_client_end_def connect_version_at_def)
  from v have v': "lenstr_end tvb offset + 6 \<le> length tvb" by (simp add: connect_version_at_def)
  have four: "x + 4 = Suc (Suc (Suc (Suc x)))" for x :: nat by simp
  show ?thesis
    unfolding connect_proto_def connect_flags_def Let_def
    using ve ce v'
    by (simp add: four seq_def lift_def ret_def dissect_lenstr_eq tvb_get_guint8_def
        set_runtime_proto_version_def proto_tree_add_item_eq1 proto_tree_add_item_eq2
        connect_head_items_def connect_flags_at_def connect_client_end_def
        connect_version_at_def Let_def add.assoc)
qed

lemma connect_will_eq:
  assumes fit: "connect_will_end tvb offset \<le> length tvb"
  shows "connect_will tvb (connect_flags_at tvb offset) (connect_client_end tvb offset) s =
     (Inr (connect_will_end tvb offset),
      s\<lparr>tree := tree s @ connect_will_items tvb offset\<rparr>)"
proof (cases "connect_flags_at tvb offset AND MQTT_CONMASK_WILLFLAG \<noteq> 0")
  case False
  then show ?thesis
    by (simp add: connect_will_def seq_def ret_def connect_will_end_def connect_will_items_def)
next
  case True
  with fit have 2: "lenstr_end tvb (lenstr_end tvb (connect_client_end tvb offset)) \<le> length tvb"
    by (simp add: connect_will_end_def)
  with lenstr_end_ge [of "lenstr_end tvb (connect_client_end tvb offset)" tvb]
  have 1: "lenstr_end tvb (connect_client_end tvb offset) \<le> length tvb" by simp
  from True 1 2 show ?thesis
    by (simp add: connect_will_def seq_def dissect_lenstr_eq connect_will_end_def
        connect_will_items_def)
qed

lemma connect_client_end_le_will: "connect_client_end tvb offset \<le> connect_will_end tvb offset"
  using lenstr_end_ge [of "connect_client_end tvb offset" tvb]
    lenstr_end_ge [of "lenstr_end tvb (connect_client_end tvb offset)" tvb]
  by (simp add: connect_will_end_def)

lemma connect_username_eq:
  assumes "connect_will_end tvb offset \<le> length tvb"
  shows "connect_username tvb (connect_flags_at tvb offset) (connect_will_end tvb offset) s =
     (if connect_username_end tvb offset \<le> length tvb
      then (Inr (connect_username_end tvb offset),
            s\<lparr>tree := tree s @
               (if username_decoded tvb offset
                then lenstr_items hf_mqtt_username_len hf_mqtt_username tvb
                       (connect_will_end tvb offset)
                else [])\<rparr>)
      else (Inl TruncatedFrame,
            s\<lparr>tree := tree s @
               (if connect_will_end tvb offset + 2 \<le> length tvb
                then [span_item hf_mqtt_username_len tvb (connect_will_end tvb offset) 2]
                else [])\<rparr>))"
  using assms
  by (auto simp: connect_username_def connect_username_end_def username_decoded_def
      tvb_reported_length_remaining_def dissect_lenstr_eq ret_def)

lemma connect_passwd_eq:
  assumes "connect_username_end tvb offset \<le> length tvb"
  shows "connect_passwd tvb (connect_flags_at tvb offset) (connect_username_end tvb offset) s =
     (if connect_passwd_end tvb offset \<le> length tvb
      then (Inr (connect_passwd_end tvb offset),
            s\<lparr>tree := tree s @
               (if passwd_decoded tvb offset
                then lenstr_items hf_mqtt_passwd_len hf_mqtt_passwd tvb
                       (connect_username_end tvb offset)
                else [])\<rparr>)
      else (Inl TruncatedFrame,
            s\<lparr>tree := tree s @
               (if connect_username_end tvb offset + 2 \<le> length tvb
                then [span_item hf_mqtt_passwd_len tvb (connect_username_end tvb offset) 2]
                else [])\<rparr>))"
  using assms
  by (auto simp: connect_passwd_def connect_passwd_end_def passwd_decoded_def
      tvb_reported_length_remaining_def dissect_lenstr_eq ret_def)

lemma seq_assoc: "seq (seq m f) g = seq m (\<lambda>x. seq (f x) g)"
  by (auto simp: seq_def fun_eq_iff split: prod.splits sum.splits)

lemma seq_Inr: "m s = (Inr x, s') \<Longrightarrow> seq m f s = f x s'"
  by (simp add: seq_def)

lemma dissect_connect_tail:
  assumes head: "connect_will_end tvb offset \<le> length tvb"
  shows "dissect_connect tvb offset s =
     seq (connect_username tvb (connect_flags_at tvb offset) (connect_will_end tvb offset))
       (\<lambda>offset'. seq (connect_passwd tvb (connect_flags_at tvb offset) offset') (\<lambda>_. ret ()))
       (s\<lparr>conv := (conv s)\<lparr>runtime_proto_version := tvb ! connect_version_at tvb offset\<rparr>,
          tree := tree s @ connect_head_items tvb offset @ connect_will_items tvb offset\<rparr>)"
proof -
  from head connect_client_end_le_will [of tvb offset]
  have ce: "connect_client_end tvb offset \<le> length tvb" by simp
  have "dissect_connect tvb offset s =
      seq (seq (connect_proto tvb offset) (connect_flags tvb)) (\<lambda>(mqtt_con_flags, offset).
        seq (connect_will tvb mqtt_con_flags offset) (\<lambda>offset.
        seq (connect_username tvb mqtt_con_flags offset) (\<lambda>offset.
        seq (connect_passwd tvb mqtt_con_flags offset) (\<lambda>_. ret ())))) s"
    by (simp add: dissect_connect_def seq_assoc)
  also have "\<dots> = seq (connect_will tvb (connect_flags_at tvb offset) (connect_client_end tvb offset))
        (\<lambda>offset'.
        seq (connect_username tvb (connect_flags_at tvb offset) offset') (\<lambda>offset'.
        seq (connect_passwd tvb (connect_flags_at tvb offset) offset') (\<lambda>_. ret ())))
        (s\<lparr>conv := (conv s)\<lparr>runtime_proto_version := tvb ! connect_version_at tvb offset\<rparr>,
           tree := tree s @ connect_head_items tvb offset\<rparr>)"
    by (simp add: seq_Inr [OF connect_proto_flags_eq [OF ce]])
  also have "\<dots> = seq (connect_username tvb (connect_flags_at tvb offset) (connect_will_end tvb offset))
       (\<lambda>offset'. seq (connect_passwd tvb (connect_flags_at tvb offset) offset') (\<lambda>_. ret ()))
       (s\<lparr>conv := (conv s)\<lparr>runtime_proto_version := tvb ! connect_version_at tvb offset\<rparr>,
          tree := tree s @ connect_head_items tvb offset @ connect_will_items tvb offset\<rparr>)"
    by (simp add: seq_Inr [OF connect_will_eq [OF head]])
  finally show ?thesis .
qed

lemma connect_username_end_le_passwd:
  "connect_username_end tvb offset \<le> connect_passwd_end tvb offset"
  using lenstr_end_ge [of "connect_username_end tvb offset" tvb]
  by (simp add: connect_passwd_end_def)

lemma dissect_connect_fits:
  assumes head: "connect_will_end tvb offset \<le> length tvb"
    and fits: "connect_passwd_end tvb offset \<le> length tvb"
  shows "dissect_connect tvb offset s =
     (Inr (), s\<lparr>conv := (conv s)\<lparr>runtime_proto_version := tvb ! connect_version_at tvb offset\<rparr>,
                tree := tree s @ connect_items tvb offset\<rparr>)"
proof -
  from fits connect_username_end_le_passwd [of tvb offset]
  have u: "connect_username_end tvb offset \<le> length tvb" by simp
  show ?thesis
    unfolding dissect_connect_tail [OF head]
    by (simp add: seq_def connect_username_eq [OF head] connect_passwd_eq [OF u] u fits ret_def
        connect_items_def)
qed

lemma dissect_connect_overrun:
  assumes head: "connect_will_end tvb offset \<le> length tvb"
    and over: "length tvb < connect_passwd_end tvb offset"
  shows "fst (dissect_connect tvb offset s) = Inl TruncatedFrame"
proof (cases "connect_username_end tvb offset \<le> length tvb")
  case True
  with over show ?thesis
    unfolding dissect_connect_tail [OF head]
    by (simp add: seq_def connect_username_eq [OF head] connect_passwd_eq [OF True])
next
  case False
  then show ?thesis
    unfolding dissect_connect_tail [OF head]
    by (simp add: seq_def connect_username_eq [OF head])
qed

lemma lenstr_items_fields: "map field (lenstr_items h_len h_str tvb offset) = [h_len, h_str]"
  by (simp add: lenstr_items_def span_item_def)

lemma connect_items_fields:
  "map field (connect_items tvb offset) =
     [hf_mqtt_proto_len, hf_mqtt_proto_name, hf_mqtt_proto_ver, hf_mqtt_conflags,
      hf_mqtt_conflag_user, hf_mqtt_conflag_passwd, hf_mqtt_conflag_will_retain,
      hf_mqtt_conflag_will_qos, hf_mqtt_conflag_will_flag, hf_mqtt_conflag_clean_sess,
      hf_mqtt_conflag_reserved, hf_mqtt_keep_alive, hf_mqtt_client_id_len, hf_mqtt_client_id] @
     (if connect_flags_at tvb offset AND MQTT_CONMASK_WILLFLAG \<noteq> 0
      then [hf_mqtt_will_topic_len, hf_mqtt_will_topic, hf_mqtt_will_msg_len, hf_mqtt_will_msg]
      else []) @
     (if username_decoded tvb offset then [hf_mqtt_username_len, hf_mqtt_username] else []) @
     (if passwd_decoded tvb offset then [hf_mqtt_passwd_len, hf_mqtt_passwd] else [])"
  by (simp add: connect_items_def connect_head_items_def connect_will_items_def
      lenstr_items_fields Let_def span_item_def)

lemma connect_items_username:
  "hf_mqtt_username \<in> field ` set (connect_items tvb offset) \<longleftrightarrow> username_decoded tvb offset"
  unfolding set_map [symmetric] connect_items_fields by simp

lemma connect_items_passwd:
  "hf_mqtt_passwd \<in> field ` set (connect_items tvb offset) \<longleftrightarrow> passwd_decoded tvb offset"
  unfolding set_map [symmetric] connect_items_fields by simp

text \<open>Claim C8. Take a CONNECT frame that holds everything up to the will fields. If the user
  name and password it is going to read fit, it decodes to the CONNECT layout, and its tree
  has a user name exactly when the user-name flag is set and at least one byte remains behind
  the will fields, and a password exactly when the password flag is set and at least one byte
  remains behind the user name. If one of the two is read and does not fit, the decode fails
  with \<open>TruncatedFrame\<close>. If no byte remains behind the will fields, the frame decodes
  without user name and password whatever the flags say.\<close>

theorem connect_credentials:
  assumes t: "drop_bit 4 b = MQTT_CONNECT"
    and len: "dissect_uleb128 (b # rest) 1 = Inr (n, v)"
    and head: "connect_will_end (b # rest) (1 + n) \<le> length (b # rest)"
  shows "(connect_passwd_end (b # rest) (1 + n) \<le> length (b # rest) \<longrightarrow>
      fst (dissect_mqtt (b # rest) data) = Inr (length (b # rest)) \<and>
      tree (snd (dissect_mqtt (b # rest) data)) =
        fixed_hdr_items b rest n v (runtime_proto_version (conv_get_or_new data)) @
        connect_items (b # rest) (1 + n) \<and>
      (hf_mqtt_username \<in> field ` set (tree (snd (dissect_mqtt (b # rest) data))) \<longleftrightarrow>
         username_decoded (b # rest) (1 + n)) \<and>
      (hf_mqtt_passwd \<in> field ` set (tree (snd (dissect_mqtt (b # rest) data))) \<longleftrightarrow>
         passwd_decoded (b # rest) (1 + n))) \<and>
     (length (b # rest) < connect_passwd_end (b # rest) (1 + n) \<longrightarrow>
      fst (dissect_mqtt (b # rest) data) = Inl TruncatedFrame) \<and>
     (length (b # rest) \<le> connect_will_end (b # rest) (1 + n) \<longrightarrow>
      \<not> username_decoded (b # rest) (1 + n) \<and> \<not> passwd_decoded (b # rest) (1 + n) \<and>
      fst (dissect_mqtt (b # rest) data) = Inr (length (b # rest)))"
proof -
  let ?T = "b # rest" and ?o = "1 + n"
  let ?hdr = "fixed_hdr_items b rest n v (runtime_proto_version (conv_get_or_new data))"
  have sw: "dissect_switch ?T ?o b (drop_bit 4 b) (int v) = dissect_connect ?T ?o"
    unfolding t by (simp add: dissect_switch_def)
  have ok: "fst (dissect_mqtt ?T data) = Inr (length ?T) \<and>
      tree (snd (dissect_mqtt ?T data)) = ?hdr @ connect_items ?T ?o"
    if fits: "connect_passwd_end ?T ?o \<le> length ?T"
    unfolding dissect_mqtt_unfold [OF len] sw dissect_connect_fits [OF head fits]
    by (simp add: fixed_hdr_state_def)
  have nu: "hf_mqtt_username \<notin> field ` set ?hdr" and np: "hf_mqtt_passwd \<notin> field ` set ?hdr"
    using fixed_hdr_items_fields [of b rest n v "runtime_proto_version (conv_get_or_new data)"]
    by (auto simp: hdr_fields_def flag_fields_def)
  have 1: "fst (dissect_mqtt ?T data) = Inr (length ?T) \<and>
      tree (snd (dissect_mqtt ?T data)) = ?hdr @ connect_items ?T ?o \<and>
      (hf_mqtt_username \<in> field ` set (tree (snd (dissect_mqtt ?T data))) \<longleftrightarrow>
         username_decoded ?T ?o) \<and>
      (hf_mqtt_passwd \<in> field ` set (tree (snd (dissect_mqtt ?T data))) \<longleftrightarrow>
         passwd_decoded ?T ?o)"
    if fits: "connect_passwd_end ?T ?o \<le> length ?T"
    using ok [OF fits] nu np
    by (simp add: image_Un connect_items_username connect_items_passwd)
  have 2: "fst (dissect_mqtt ?T data) = Inl TruncatedFrame"
    if over: "length ?T < connect_passwd_end ?T ?o"
    unfolding dissect_mqtt_fst [OF len] sw
    using dissect_connect_overrun [OF head over, of "fixed_hdr_state data b rest n v"] by simp
  have 3: "\<not> username_decoded ?T ?o \<and> \<not> passwd_decoded ?T ?o \<and>
      fst (dissect_mqtt ?T data) = Inr (length ?T)"
    if none: "length ?T \<le> connect_will_end ?T ?o"
  proof -
    from none have u: "\<not> username_decoded ?T ?o" by (simp add: username_decoded_def)
    with none have p: "\<not> passwd_decoded ?T ?o"
      by (simp add: passwd_decoded_def connect_username_end_def)
    from u p head have "connect_passwd_end ?T ?o \<le> length ?T"
      by (simp add: connect_passwd_end_def connect_username_end_def)
    from ok [OF this] u p show ?thesis by simp
  qed
  from 1 2 3 show ?thesis by blast
qed

lemmas connect_layout_defs = connect_will_end_def connect_flags_at_def connect_version_at_def
  connect_client_end_def lenstr_end_def be16_def username_decoded_def passwd_decoded_def
  connect_username_end_def connect_passwd_end_def mask_defs

text \<open>Three CONNECT frames with client identifier \<open>abc\<close>: both flags set and nothing behind
  the client identifier; both flags set with user name \<open>u\<close> and password \<open>p\<close>; the
  user-name flag set with one stray byte.\<close>

theorem connect_credentials_witness:
  "drop_bit 4 (0x10 :: u8) = MQTT_CONNECT \<and>
   dissect_uleb128 (0x10 # [0x0F, 0x00, 0x04, 0x4D, 0x51, 0x54, 0x54, 0x04, 0xC2, 0x00, 0x3C, 0x00, 0x03, 0x61, 0x62, 0x63]) 1 = Inr (1, 15) \<and>
   connect_flags_at (0x10 # [0x0F, 0x00, 0x04, 0x4D, 0x51, 0x54, 0x54, 0x04, 0xC2, 0x00, 0x3C, 0x00, 0x03, 0x61, 0x62, 0x63]) (1 + 1) = 0xC2 \<and>
   connect_will_end (0x10 # [0x0F, 0x00, 0x04, 0x4D, 0x51, 0x54, 0x54, 0x04, 0xC2, 0x00, 0x3C, 0x00, 0x03, 0x61, 0x62, 0x63]) (1 + 1) = length (0x10 # [0x0F, 0x00, 0x04, 0x4D, 0x51, 0x54, 0x54, 0x04, 0xC2, 0x00, 0x3C, 0x00, 0x03, 0x61, 0x62, 0x63] :: u8 list) \<and>
   \<not> username_decoded (0x10 # [0x0F, 0x00, 0x04, 0x4D, 0x51, 0x54, 0x54, 0x04, 0xC2, 0x00, 0x3C, 0x00, 0x03, 0x61, 0x62, 0x63]) (1 + 1) \<and> \<not> passwd_decoded (0x10 # [0x0F, 0x00, 0x04, 0x4D, 0x51, 0x54, 0x54, 0x04, 0xC2, 0x00, 0x3C, 0x00, 0x03, 0x61, 0x62, 0x63]) (1 + 1) \<and>
   fst (dissect_mqtt (0x10 # [0x0F, 0x00, 0x04, 0x4D, 0x51, 0x54, 0x54, 0x04, 0xC2, 0x00, 0x3C, 0x00, 0x03, 0x61, 0x62, 0x63]) None) = Inr (length (0x10 # [0x0F, 0x00, 0x04, 0x4D, 0x51, 0x54, 0x54, 0x04, 0xC2, 0x00, 0x3C, 0x00, 0x03, 0x61, 0x62, 0x63] :: u8 list)) \<and>
   dissect_uleb128 (0x10 # [0x15, 0x00, 0x04, 0x4D, 0x51, 0x54, 0x54, 0x04, 0xC2, 0x00, 0x3C, 0x00, 0x03, 0x61, 0x62, 0x63, 0x00, 0x01, 0x75, 0x00, 0x01, 0x70]) 1 = Inr (1, 21) \<and>
   connect_will_end (0x10 # [0x15, 0x00, 0x04, 0x4D, 0x51, 0x54, 0x54, 0x04, 0xC2, 0x00, 0x3C, 0x00, 0x03, 0x61, 0x62, 0x63, 0x00, 0x01, 0x75, 0x00, 0x01, 0x70]) (1 + 1) \<le> length (0x10 # [0x15, 0x00, 0x04, 0x4D, 0x51, 0x54, 0x54, 0x04, 0xC2, 0x00, 0x3C, 0x00, 0x03, 0x61, 0x62, 0x63, 0x00, 0x01, 0x75, 0x00, 0x01, 0x70] :: u8 list) \<and>
   connect_passwd_end (0x10 # [0x15, 0x00, 0x04, 0x4D, 0x51, 0x54, 0x54, 0x04, 0xC2, 0x00, 0x3C, 0x00, 0x03, 0x61, 0x62, 0x63, 0x00, 0x01, 0x75, 0x00, 0x01, 0x70]) (1 + 1) \<le> length (0x10 # [0x15, 0x00, 0x04, 0x4D, 0x51, 0x54, 0x54, 0x04, 0xC2, 0x00, 0x3C, 0x00, 0x03, 0x61, 0x62, 0x63, 0x00, 0x01, 0x75, 0x00, 0x01, 0x70] :: u8 list) \<and>
   username_decoded (0x10 # [0x15, 0x00, 0x04, 0x4D, 0x51, 0x54, 0x54, 0x04, 0xC2, 0x00, 0x3C, 0x00, 0x03, 0x61, 0x62, 0x63, 0x00, 0x01, 0x75, 0x00, 0x01, 0x70]) (1 + 1) \<and> passwd_decoded (0x10 # [0x15, 0x00, 0x04, 0x4D, 0x51, 0x54, 0x54, 0x04, 0xC2, 0x00, 0x3C, 0x00, 0x03, 0x61, 0x62, 0x63, 0x00, 0x01, 0x75, 0x00, 0x01, 0x70]) (1 + 1) \<and>
   hf_mqtt_username \<in> field ` set (tree (snd (dissect_mqtt (0x10 # [0x15, 0x00, 0x04, 0x4D, 0x51, 0x54, 0x54, 0x04, 0xC2, 0x00, 0x3C, 0x00, 0x03, 0x61, 0x62, 0x63, 0x00, 0x01, 0x75, 0x00, 0x01, 0x70]) None))) \<and>
   hf_mqtt_passwd \<in> field ` set (tree (snd (dissect_mqtt (0x10 # [0x15, 0x00, 0x04, 0x4D, 0x51, 0x54, 0x54, 0x04, 0xC2, 0x00, 0x3C, 0x00, 0x03, 0x61, 0x62, 0x63, 0x00, 0x01, 0x75, 0x00, 0x01, 0x70]) None))) \<and>
   dissect_uleb128 (0x10 # [0x10, 0x00, 0x04, 0x4D, 0x51, 0x54, 0x54, 0x04, 0x82, 0x00, 0x3C, 0x00, 0x03, 0x61, 0x62, 0x63, 0x00]) 1 = Inr (1, 16) \<and>
   connect_will_end (0x10 # [0x10, 0x00, 0x04, 0x4D, 0x51, 0x54, 0x54, 0x04, 0x82, 0x00, 0x3C, 0x00, 0x03, 0x61, 0x62, 0x63, 0x00]) (1 + 1) \<le> length (0x10 # [0x10, 0x00, 0x04, 0x4D, 0x51, 0x54, 0x54, 0x04, 0x82, 0x00, 0x3C, 0x00, 0x03, 0x61, 0x62, 0x63, 0x00] :: u8 list) \<and>
   length (0x10 # [0x10, 0x00, 0x04, 0x4D, 0x51, 0x54, 0x54, 0x04, 0x82, 0x00, 0x3C, 0x00, 0x03, 0x61, 0x62, 0x63, 0x00] :: u8 list) < connect_passwd_end (0x10 # [0x10, 0x00, 0x04, 0x4D, 0x51, 0x54, 0x54, 0x04, 0x82, 0x00, 0x3C, 0x00, 0x03, 0x61, 0x62, 0x63, 0x00]) (1 + 1) \<and>
   fst (dissect_mqtt (0x10 # [0x10, 0x00, 0x04, 0x4D, 0x51, 0x54, 0x54, 0x04, 0x82, 0x00, 0x3C, 0x00, 0x03, 0x61, 0x62, 0x63, 0x00]) None) = Inl TruncatedFrame"
proof -
  have t: "drop_bit 4 (0x10 :: u8) = MQTT_CONNECT"
    by (simp add: MQTT_CONNECT_def drop_bit_eq_div)
  have la: "dissect_uleb128 (0x10 # [0x0F, 0x00, 0x04, 0x4D, 0x51, 0x54, 0x54, 0x04, 0xC2, 0x00, 0x3C, 0x00, 0x03, 0x61, 0x62, 0x63]) 1 = Inr (1, 15)"
    by (simp add: dissect_uleb128_def)
  have fa: "connect_flags_at (0x10 # [0x0F, 0x00, 0x04, 0x4D, 0x51, 0x54, 0x54, 0x04, 0xC2, 0x00, 0x3C, 0x00, 0x03, 0x61, 0x62, 0x63]) (1 + 1) = 0xC2"
    by (simp add: connect_layout_defs)
  have wa: "connect_will_end (0x10 # [0x0F, 0x00, 0x04, 0x4D, 0x51, 0x54, 0x54, 0x04, 0xC2, 0x00, 0x3C, 0x00, 0x03, 0x61, 0x62, 0x63]) (1 + 1) = length (0x10 # [0x0F, 0x00, 0x04, 0x4D, 0x51, 0x54, 0x54, 0x04, 0xC2, 0x00, 0x3C, 0x00, 0x03, 0x61, 0x62, 0x63] :: u8 list)"
    by (simp add: connect_layout_defs)
  then have ha: "connect_will_end (0x10 # [0x0F, 0x00, 0x04, 0x4D, 0x51, 0x54, 0x54, 0x04, 0xC2, 0x00, 0x3C, 0x00, 0x03, 0x61, 0x62, 0x63]) (1 + 1) \<le> length (0x10 # [0x0F, 0x00, 0x04, 0x4D, 0x51, 0x54, 0x54, 0x04, 0xC2, 0x00, 0x3C, 0x00, 0x03, 0x61, 0x62, 0x63] :: u8 list)"
    and na: "length (0x10 # [0x0F, 0x00, 0x04, 0x4D, 0x51, 0x54, 0x54, 0x04, 0xC2, 0x00, 0x3C, 0x00, 0x03, 0x61, 0x62, 0x63] :: u8 list) \<le> connect_will_end (0x10 # [0x0F, 0x00, 0x04, 0x4D, 0x51, 0x54, 0x54, 0x04, 0xC2, 0x00, 0x3C, 0x00, 0x03, 0x61, 0x62, 0x63]) (1 + 1)"
    by simp_all
  from connect_credentials [OF t la ha, of None] na
  have ra: "\<not> username_decoded (0x10 # [0x0F, 0x00, 0x04, 0x4D, 0x51, 0x54, 0x54, 0x04, 0xC2, 0x00, 0x3C, 0x00, 0x03, 0x61, 0x62, 0x63]) (1 + 1) \<and> \<not> passwd_decoded (0x10 # [0x0F, 0x00, 0x04, 0x4D, 0x51, 0x54, 0x54, 0x04, 0xC2, 0x00, 0x3C, 0x00, 0x03, 0x61, 0x62, 0x63]) (1 + 1) \<and>
      fst (dissect_mqtt (0x10 # [0x0F, 0x00, 0x04, 0x4D, 0x51, 0x54, 0x54, 0x04, 0xC2, 0x00, 0x3C, 0x00, 0x03, 0x61, 0x62, 0x63]) None) = Inr (length (0x10 # [0x0F, 0x00, 0x04, 0x4D, 0x51, 0x54, 0x54, 0x04, 0xC2, 0x00, 0x3C, 0x00, 0x03, 0x61, 0x62, 0x63] :: u8 list))"
    by blast
  have lb: "dissect_uleb128 (0x10 # [0x15, 0x00, 0x04, 0x4D, 0x51, 0x54, 0x54, 0x04, 0xC2, 0x00, 0x3C, 0x00, 0x03, 0x61, 0x62, 0x63, 0x00, 0x01, 0x75, 0x00, 0x01, 0x70]) 1 = Inr (1, 21)"
    by (simp add: dissect_uleb128_def)
  have hb: "connect_will_end (0x10 # [0x15, 0x00, 0x04, 0x4D, 0x51, 0x54, 0x54, 0x04, 0xC2, 0x00, 0x3C, 0x00, 0x03, 0x61, 0x62, 0x63, 0x00, 0x01, 0x75, 0x00, 0x01, 0x70]) (1 + 1) \<le> length (0x10 # [0x15, 0x00, 0x04, 0x4D, 0x51, 0x54, 0x54, 0x04, 0xC2, 0x00, 0x3C, 0x00, 0x03, 0x61, 0x62, 0x63, 0x00, 0x01, 0x75, 0x00, 0x01, 0x70] :: u8 list)"
    by (simp add: connect_layout_defs)
  have pb: "connect_passwd_end (0x10 # [0x15, 0x00, 0x04, 0x4D, 0x51, 0x54, 0x54, 0x04, 0xC2, 0x00, 0x3C, 0x00, 0x03, 0x61, 0x62, 0x63, 0x00, 0x01, 0x75, 0x00, 0x01, 0x70]) (1 + 1) \<le> length (0x10 # [0x15, 0x00, 0x04, 0x4D, 0x51, 0x54, 0x54, 0x04, 0xC2, 0x00, 0x3C, 0x00, 0x03, 0x61, 0x62, 0x63, 0x00, 0x01, 0x75, 0x00, 0x01, 0x70] :: u8 list)"
    by (simp add: connect_layout_defs)
  have ub: "username_decoded (0x10 # [0x15, 0x00, 0x04, 0x4D, 0x51, 0x54, 0x54, 0x04, 0xC2, 0x00, 0x3C, 0x00, 0x03, 0x61, 0x62, 0x63, 0x00, 0x01, 0x75, 0x00, 0x01, 0x70]) (1 + 1)"
    by (simp add: connect_layout_defs)
  have qb: "passwd_decoded (0x10 # [0x15, 0x00, 0x04, 0x4D, 0x51, 0x54, 0x54, 0x04, 0xC2, 0x00, 0x3C, 0x00, 0x03, 0x61, 0x62, 0x63, 0x00, 0x01, 0x75, 0x00, 0x01, 0x70]) (1 + 1)"
    by (simp add: connect_layout_defs)
  from connect_credentials [OF t lb hb, of None] pb ub qb
  have rb: "hf_mqtt_username \<in> field ` set (tree (snd (dissect_mqtt (0x10 # [0x15, 0x00, 0x04, 0x4D, 0x51, 0x54, 0x54, 0x04, 0xC2, 0x00, 0x3C, 0x00, 0x03, 0x61, 0x62, 0x63, 0x00, 0x01, 0x75, 0x00, 0x01, 0x70]) None))) \<and>
      hf_mqtt_passwd \<in> field ` set (tree (snd (dissect_mqtt (0x10 # [0x15, 0x00, 0x04, 0x4D, 0x51, 0x54, 0x54, 0x04, 0xC2, 0x00, 0x3C, 0x00, 0x03, 0x61, 0x62, 0x63, 0x00, 0x01, 0x75, 0x00, 0x01, 0x70]) None)))"
    by blast
  have lc: "dissect_uleb128 (0x10 # [0x10, 0x00, 0x04, 0x4D, 0x51, 0x54, 0x54, 0x04, 0x82, 0x00, 0x3C, 0x00, 0x03, 0x61, 0x62, 0x63, 0x00]) 1 = Inr (1, 16)"
    by (simp add: dissect_uleb128_def)
  have hc: "connect_will_end (0x10 # [0x10, 0x00, 0x04, 0x4D, 0x51, 0x54, 0x54, 0x04, 0x82, 0x00, 0x3C, 0x00, 0x03, 0x61, 0x62, 0x63, 0x00]) (1 + 1) \<le> length (0x10 # [0x10, 0x00, 0x04, 0x4D, 0x51, 0x54, 0x54, 0x04, 0x82, 0x00, 0x3C, 0x00, 0x03, 0x61, 0x62, 0x63, 0x00] :: u8 list)"
    by (simp add: connect_layout_defs)
  have oc: "length (0x10 # [0x10, 0x00, 0x04, 0x4D, 0x51, 0x54, 0x54, 0x04, 0x82, 0x00, 0x3C, 0x00, 0x03, 0x61, 0x62, 0x63, 0x00] :: u8 list) < connect_passwd_end (0x10 # [0x10, 0x00, 0x04, 0x4D, 0x51, 0x54, 0x54, 0x04, 0x82, 0x00, 0x3C, 0x00, 0x03, 0x61, 0x62, 0x63, 0x00]) (1 + 1)"
    by (simp add: connect_layout_defs)
  from connect_credentials [OF t lc hc, of None] oc
  have rc: "fst (dissect_mqtt (0x10 # [0x10, 0x00, 0x04, 0x4D, 0x51, 0x54, 0x54, 0x04, 0x82, 0x00, 0x3C, 0x00, 0x03, 0x61, 0x62, 0x63, 0x00]) None) = Inl TruncatedFrame"
    by blast
  from t la fa wa ra lb hb pb ub qb rb lc hc oc rc show ?thesis by blast
qed

subsection \<open>Frames that end too early: every packet type\<close>

















end
